theory Spec2Isabelle
  imports Main
begin

section \<open>Data model\<close>

text \<open>
  The module under study is \<^verbatim>\<open>caliban/util.py\<close>. Python strings are modelled as
  \<^typ>\<open>string\<close>; a \<^typ>\<open>char\<close> stands for a code point in the range 0..255.
  An \<^verbatim>\<open>Optional[str]\<close> is a \<^typ>\<open>string option\<close>.

  A Python \<^verbatim>\<open>dict\<close> is an insertion-ordered association list whose keys are
  pairwise distinct. Assignment \<^verbatim>\<open>d[k] = v\<close> replaces the value in place when the
  key is present and appends the entry otherwise. Python's \<^verbatim>\<open>==\<close> on dicts ignores
  the order of insertion, so two dicts are compared through \<^const>\<open>map_of\<close>.
\<close>

type_synonym ('k, 'v) dict = "('k \<times> 'v) list"

datatype py_error = ValueError | IndexError

fun dict_set :: "'k \<Rightarrow> 'v \<Rightarrow> ('k, 'v) dict \<Rightarrow> ('k, 'v) dict" where
  "dict_set k v [] = [(k, v)]"
| "dict_set k v (p # d) = (if fst p = k then (k, v) # d else p # dict_set k v d)"

definition wf_dict :: "('k, 'v) dict \<Rightarrow> bool" where
  "wf_dict d = distinct (map fst d)"

section \<open>Label sanitizer\<close>

text \<open>\<^verbatim>\<open>_is_key\<close>: \<^verbatim>\<open>k is not None and len(k) > 0 and k[0] == "-"\<close>.\<close>

definition is_key :: "string option \<Rightarrow> bool" where
  "is_key k = (case k of None \<Rightarrow> False | Some s \<Rightarrow> length s > 0 \<and> hd s = CHR ''-'')"

text \<open>\<^verbatim>\<open>_truncate\<close>: \<^verbatim>\<open>s if len(s) <= max_length else s[0:max_length]\<close>.\<close>

definition truncate :: "string \<Rightarrow> nat \<Rightarrow> string" where
  "truncate s max_length = (if length s \<le> max_length then s else take max_length s)"

text \<open>\<^verbatim>\<open>str.lstrip("-")\<close> removes the leading run of the given character.\<close>

fun lstrip :: "char \<Rightarrow> string \<Rightarrow> string" where
  "lstrip d [] = []"
| "lstrip d (c # cs) = (if c = d then lstrip d cs else c # cs)"

text \<open>
  \<^verbatim>\<open>str.lower()\<close> on code points below 256: the ASCII capitals and the Latin-1
  capitals (192..222 without the multiplication sign 215) move up by 32.
\<close>

definition lower_char :: "char \<Rightarrow> char" where
  "lower_char c = (let n = (of_char c :: nat) in
     if (65 \<le> n \<and> n \<le> 90) \<or> (192 \<le> n \<and> n \<le> 222 \<and> n \<noteq> 215)
     then char_of (n + 32) else c)"

definition str_lower :: "string \<Rightarrow> string" where
  "str_lower s = map lower_char s"

text \<open>\<^verbatim>\<open>str.isalpha()\<close> of one character, on code points below 256.\<close>

definition isalpha :: "char \<Rightarrow> bool" where
  "isalpha c = (let n = (of_char c :: nat) in
     (65 \<le> n \<and> n \<le> 90) \<or> (97 \<le> n \<and> n \<le> 122) \<or> n = 170 \<or> n = 181 \<or> n = 186 \<or>
     (192 \<le> n \<and> n \<le> 214) \<or> (216 \<le> n \<and> n \<le> 246) \<or> (248 \<le> n \<and> n \<le> 255))"

text \<open>The character class \<^verbatim>\<open>[a-z0-9_-]\<close> of the regular expression.\<close>

definition in_class :: "char \<Rightarrow> bool" where
  "in_class c = (let n = (of_char c :: nat) in
     (97 \<le> n \<and> n \<le> 122) \<or> (48 \<le> n \<and> n \<le> 57) \<or> c = CHR ''_'' \<or> c = CHR ''-'')"

text \<open>\<^verbatim>\<open>re.sub(r'[^a-z0-9_-]', '', s)\<close>: every character outside the class is deleted.\<close>

fun re_sub_outside :: "string \<Rightarrow> string" where
  "re_sub_outside [] = []"
| "re_sub_outside (c # cs) = (if in_class c then c # re_sub_outside cs else re_sub_outside cs)"

text \<open>\<^verbatim>\<open>_clean_label\<close>.\<close>

definition clean_label :: "string option \<Rightarrow> bool \<Rightarrow> string" where
  "clean_label s is_key_flag =
     (case s of
        None \<Rightarrow> ''''
      | Some str \<Rightarrow>
          (let cleaned = re_sub_outside (str_lower (lstrip (CHR ''-'') str));
               cleaned' = (if is_key_flag \<and> cleaned \<noteq> '''' \<and> \<not> isalpha (hd cleaned)
                           then CHR ''k'' # cleaned else cleaned)
           in truncate cleaned' 63))"

definition key_label :: "string option \<Rightarrow> string" where
  "key_label k = clean_label k True"

definition value_label :: "string option \<Rightarrow> string" where
  "value_label v = clean_label v False"

text \<open>
  The sanitizer as the specification words it: strip the leading dashes, lowercase,
  keep the characters of the label alphabet, prepend \<open>k\<close> to a key that does not start
  with a letter, keep the first 63 characters.
\<close>

definition label_alphabet :: "char set" where
  "label_alphabet = set ''abcdefghijklmnopqrstuvwxyz0123456789_-''"

definition label_letters :: "char set" where
  "label_letters = set ''abcdefghijklmnopqrstuvwxyz''"

definition sanitize_spec :: "string option \<Rightarrow> bool \<Rightarrow> string" where
  "sanitize_spec raw is_key_flag =
     (case raw of
        None \<Rightarrow> ''''
      | Some s \<Rightarrow>
          (let c = filter (\<lambda>x. x \<in> label_alphabet)
                     (map lower_char (dropWhile (\<lambda>x. x = CHR ''-'') s))
           in take 63 (if is_key_flag \<and> c \<noteq> '''' \<and> hd c \<notin> label_letters
                       then CHR ''k'' # c else c)))"

section \<open>Argument pair parser\<close>

text \<open>
  \<^verbatim>\<open>partition\<close>: the slices \<^verbatim>\<open>seq[i:i + n]\<close> for
  \<^verbatim>\<open>i in range(0, max(1, len(seq) - n + 1))\<close>. The bound is computed over the
  integers, as in the source.
\<close>

definition partition_seq :: "'a list \<Rightarrow> nat \<Rightarrow> 'a list list" where
  "partition_seq seq n =
     map (\<lambda>i. take n (drop i seq)) [0 ..< nat (max 1 (int (length seq) - int n + 1))]"

text \<open>
  The loop header \<^verbatim>\<open>for k, v in ...\<close> unpacks each window into two names; a window
  of any other length raises \<^verbatim>\<open>ValueError\<close>.
\<close>

fun unpack_pair :: "'a list \<Rightarrow> py_error + ('a \<times> 'a)" where
  "unpack_pair [k, v] = Inr (k, v)"
| "unpack_pair _ = Inl ValueError"

text \<open>The local function \<^verbatim>\<open>process_pair\<close>; the dict \<^verbatim>\<open>ret\<close> it closes over is passed
  in and returned.\<close>

definition process_pair :: "string option \<Rightarrow> string option \<Rightarrow> (string, string) dict \<Rightarrow> (string, string) dict" where
  "process_pair k v ret =
     (if is_key k then
        (let clean_k = key_label k in
         if clean_k \<noteq> '''' then dict_set clean_k (if is_key v then '''' else value_label v) ret
         else ret)
      else ret)"

fun scan_windows :: "string list list \<Rightarrow> (string, string) dict \<Rightarrow> py_error + (string, string) dict" where
  "scan_windows [] ret = Inr ret"
| "scan_windows (w # ws) ret =
     (case unpack_pair w of
        Inl e \<Rightarrow> Inl e
      | Inr (k, v) \<Rightarrow> scan_windows ws (process_pair (Some k) (Some v) ret))"

definition script_args_to_labels :: "string list option \<Rightarrow> py_error + (string, string) dict" where
  "script_args_to_labels script_args =
     (case script_args of
        None \<Rightarrow> Inr []
      | Some args \<Rightarrow>
          if length args = 0 then Inr []
          else (case scan_windows (partition_seq args 2) [] of
                  Inl e \<Rightarrow> Inl e
                | Inr ret \<Rightarrow>
                    if length args > 1 then Inr (process_pair (Some (last args)) None ret)
                    else Inr ret))"

text \<open>\<^verbatim>\<open>sanitize_labels\<close>: the dict comprehension inserts the pairs in order.\<close>

definition sanitize_labels :: "(string \<times> string) list \<Rightarrow> (string, string) dict" where
  "sanitize_labels pairs =
     fold (\<lambda>(k, v) ret. if key_label (Some k) \<noteq> ''''
                         then dict_set (key_label (Some k)) (value_label (Some v)) ret
                         else ret)
          pairs []"

section \<open>Well-formed label mappings\<close>

definition key_ok :: "string \<Rightarrow> bool" where
  "key_ok k = (k \<noteq> '''' \<and> length k \<le> 63 \<and> set k \<subseteq> label_alphabet \<and> hd k \<in> label_letters)"

definition value_ok :: "string \<Rightarrow> bool" where
  "value_ok v = (length v \<le> 63 \<and> set v \<subseteq> label_alphabet)"

definition labels_ok :: "(string, string) dict \<Rightarrow> bool" where
  "labels_ok d = list_all (\<lambda>(k, v). key_ok k \<and> value_ok v) d"


section \<open>Dictionary helpers\<close>

text \<open>
  \<^verbatim>\<open>d.setdefault(k, default)\<close> returns the value stored under \<^verbatim>\<open>k\<close>, after storing
  \<^verbatim>\<open>default\<close> there when the key was absent. The model returns the value together
  with the dict; a caller that mutates the returned object writes it back with
  \<^const>\<open>dict_set\<close>.
\<close>

definition setdefault :: "'k \<Rightarrow> 'v \<Rightarrow> ('k, 'v) dict \<Rightarrow> 'v \<times> ('k, 'v) dict" where
  "setdefault k dflt d =
     (case map_of d k of Some v \<Rightarrow> (v, d) | None \<Rightarrow> (dflt, dict_set k dflt d))"

text \<open>\<^verbatim>\<open>dict(pairs)\<close>: the pairs are inserted in order, a later pair replacing the value
  of an earlier one with the same key.\<close>

definition dict_of_pairs :: "('k \<times> 'v) list \<Rightarrow> ('k, 'v) dict" where
  "dict_of_pairs ps = fold (\<lambda>(k, v) d. dict_set k v d) ps []"

section \<open>Configuration expander\<close>

text \<open>A value of the input mapping is a list or some other value.\<close>

datatype 'a pyval = Scalar 'a | PyList "'a list"

definition wrap_v :: "'a pyval \<Rightarrow> 'a list" where
  "wrap_v v = (case v of PyList xs \<Rightarrow> xs | Scalar x \<Rightarrow> [x])"

text \<open>\<^verbatim>\<open>itertools.product(*vs)\<close>: the tuples in lexicographic order, the last
  position varying fastest; one empty tuple when there is no iterable.\<close>

fun it_product :: "'a list list \<Rightarrow> 'a list list" where
  "it_product [] = [[]]"
| "it_product (xs # xss) = concat (map (\<lambda>x. map (\<lambda>t. x # t) (it_product xss)) xs)"

definition dict_product :: "('k, 'a pyval) dict \<Rightarrow> ('k, 'a) dict list" where
  "dict_product m =
     (let cleaned = dict_of_pairs (map (\<lambda>(k, v). (k, wrap_v v)) m);
          ks = map fst cleaned;
          vs = map snd cleaned
      in map (\<lambda>x. dict_of_pairs (zip ks x)) (it_product vs))"

section \<open>Table reshaper\<close>

definition flipm_body :: "'k1 \<Rightarrow> 'k2 \<Rightarrow> 'v \<Rightarrow> ('k2, ('k1, 'v) dict) dict \<Rightarrow> ('k2, ('k1, 'v) dict) dict" where
  "flipm_body k k2 v ret =
     (let (inner, ret') = setdefault k2 [] ret in dict_set k2 (dict_set k v inner) ret')"

definition flipm :: "('k1, ('k2, 'v) dict) dict \<Rightarrow> ('k2, ('k1, 'v) dict) dict" where
  "flipm table =
     fold (\<lambda>(k, m) ret. fold (\<lambda>(k2, v) ret. flipm_body k k2 v ret) m ret) table []"

definition invertm_body :: "'k \<Rightarrow> 'v \<Rightarrow> ('v, 'k set) dict \<Rightarrow> ('v, 'k set) dict" where
  "invertm_body k v ret =
     (let (s, ret') = setdefault v {} ret in dict_set v (insert k s) ret')"

definition invertm :: "('k, 'v list) dict \<Rightarrow> ('v, 'k set) dict" where
  "invertm table = fold (\<lambda>(k, vs) ret. fold (\<lambda>v ret. invertm_body k v ret) vs ret) table []"

text \<open>\<^verbatim>\<open>xs[i]\<close> on a list: a negative index counts from the end, an index out of
  range raises \<^verbatim>\<open>IndexError\<close>.\<close>

definition py_index :: "'a list \<Rightarrow> int \<Rightarrow> py_error + 'a" where
  "py_index xs i =
     (if 0 \<le> i \<and> i < int (length xs) then Inr (xs ! nat i)
      else if i < 0 \<and> 0 \<le> int (length xs) + i then Inr (xs ! nat (int (length xs) + i))
      else Inl IndexError)"

fun fold_err :: "('a \<Rightarrow> 's \<Rightarrow> py_error + 's) \<Rightarrow> 'a list \<Rightarrow> 's \<Rightarrow> py_error + 's" where
  "fold_err f [] s = Inr s"
| "fold_err f (x # xs) s = (case f x s of Inl e \<Rightarrow> Inl e | Inr s' \<Rightarrow> fold_err f xs s')"

definition reorderm_body ::
  "int \<times> int \<times> int \<Rightarrow> 'a \<Rightarrow> 'a \<Rightarrow> 'a \<Rightarrow> ('a, ('a, 'a set) dict) dict
     \<Rightarrow> py_error + ('a, ('a, 'a set) dict) dict" where
  "reorderm_body order k k2 v ret =
     (let fields = [k, k2, v] in
      case py_index fields (fst order) of
        Inl e \<Rightarrow> Inl e
      | Inr f0 \<Rightarrow>
          (let (innerm, ret') = setdefault f0 [] ret in
           case py_index fields (fst (snd order)) of
             Inl e \<Rightarrow> Inl e
           | Inr f1 \<Rightarrow>
               (let (acc, innerm') = setdefault f1 {} innerm in
                case py_index fields (snd (snd order)) of
                  Inl e \<Rightarrow> Inl e
                | Inr f2 \<Rightarrow> Inr (dict_set f0 (dict_set f1 (insert f2 acc) innerm') ret'))))"

definition reorderm ::
  "('a, ('a, 'a list) dict) dict \<Rightarrow> int \<times> int \<times> int \<Rightarrow> py_error + ('a, ('a, 'a set) dict) dict" where
  "reorderm table order =
     fold_err (\<lambda>(k, m) ret.
        fold_err (\<lambda>(k2, vs) ret.
           fold_err (\<lambda>v ret. reorderm_body order k k2 v ret) vs ret) m ret) table []"

section \<open>Notions used to state the properties of the table reshaper\<close>

text \<open>The set stored under a value in the result of \<^verbatim>\<open>invertm\<close>, empty when the value is absent.\<close>

definition members :: "('v, 'k set) dict \<Rightarrow> 'v \<Rightarrow> 'k set" where
  "members r v = (case map_of r v of None \<Rightarrow> {} | Some s \<Rightarrow> s)"

text \<open>A well-formed two-level table: the outer dict and every inner dict have pairwise distinct keys.\<close>

definition table_wf :: "('k1, ('k2, 'v) dict) dict \<Rightarrow> bool" where
  "table_wf t = (wf_dict t \<and> list_all (\<lambda>(k, m). wf_dict m) t)"

text \<open>Every inner mapping of the table has at least one entry.\<close>

definition nonempty_inner :: "('k1, ('k2, 'v) dict) dict \<Rightarrow> bool" where
  "nonempty_inner t = list_all (\<lambda>(k, m). m \<noteq> []) t"

text \<open>No inner key occurs twice in the table, in particular not under two different outer keys.\<close>

definition inner_keys_disjoint :: "('k1, ('k2, 'v) dict) dict \<Rightarrow> bool" where
  "inner_keys_disjoint t = distinct (concat (map (\<lambda>(k, m). map fst m) t))"

text \<open>The mapping a two-level table denotes; \<^verbatim>\<open>==\<close> on tables compares these.\<close>

definition table_sem :: "('k1, ('k2, 'v) dict) dict \<Rightarrow> 'k1 \<Rightarrow> ('k2 \<Rightarrow> 'v option) option" where
  "table_sem t = (\<lambda>k. map_option map_of (map_of t k))"

definition table_eq :: "('k1, ('k2, 'v) dict) dict \<Rightarrow> ('k1, ('k2, 'v) dict) dict \<Rightarrow> bool" where
  "table_eq a b = (table_sem a = table_sem b)"

text \<open>\<^verbatim>\<open>t[a][b]\<close> when both keys are present.\<close>

definition lookup2 :: "('k1, ('k2, 'v) dict) dict \<Rightarrow> 'k1 \<Rightarrow> 'k2 \<Rightarrow> 'v option" where
  "lookup2 t a b = (case map_of t a of None \<Rightarrow> None | Some m \<Rightarrow> map_of m b)"

text \<open>What holds of the accumulator of \<^verbatim>\<open>flipm\<close> throughout: distinct keys at both levels and no empty inner mapping.\<close>

definition flip_inv :: "('k1, ('k2, 'v) dict) dict \<Rightarrow> bool" where
  "flip_inv ret = (wf_dict ret \<and> list_all (\<lambda>(k, m). wf_dict m \<and> m \<noteq> []) ret)"

text \<open>The elements of \<^verbatim>\<open>r[a][b]\<close> in a three-level table, none when a key is absent.\<close>

definition leaf :: "('a, ('b, 'c set) dict) dict \<Rightarrow> 'a \<Rightarrow> 'b \<Rightarrow> 'c set" where
  "leaf r a b =
     (case map_of r a of
        None \<Rightarrow> {}
      | Some im \<Rightarrow> (case map_of im b of None \<Rightarrow> {} | Some s \<Rightarrow> s))"

text \<open>The three statements of the body of \<^verbatim>\<open>reorderm\<close> once the three selected fields are known.\<close>

definition reorder_put :: "'a \<times> 'a \<times> 'a \<Rightarrow> ('a, ('a, 'a set) dict) dict \<Rightarrow> ('a, ('a, 'a set) dict) dict" where
  "reorder_put t ret =
     (case t of (f0, f1, f2) \<Rightarrow>
        (let (innerm, ret') = setdefault f0 [] ret;
             (acc, innerm') = setdefault f1 {} innerm
         in dict_set f0 (dict_set f1 (insert f2 acc) innerm') ret'))"

text \<open>The triple \<^verbatim>\<open>(fields[order[0]], fields[order[1]], fields[order[2]])\<close> for \<^verbatim>\<open>fields = [k1, k2, v]\<close> and indices within range.\<close>

definition regroup :: "int \<times> int \<times> int \<Rightarrow> 'a \<Rightarrow> 'a \<Rightarrow> 'a \<Rightarrow> 'a \<times> 'a \<times> 'a" where
  "regroup order k1 k2 v =
     ([k1, k2, v] ! nat (fst order), [k1, k2, v] ! nat (fst (snd order)),
      [k1, k2, v] ! nat (snd (snd order)))"

section \<open>Properties of the label sanitizer\<close>

lemma lstrip_dropWhile: "lstrip d s = dropWhile (\<lambda>x. x = d) s"
  by (induction s) auto

lemma in_class_alphabet: "in_class c \<longleftrightarrow> c \<in> label_alphabet"
proof (cases c)
  case (Char b0 b1 b2 b3 b4 b5 b6 b7)
  then show ?thesis
    unfolding in_class_def label_alphabet_def Let_def
    by (cases b0; cases b1; cases b2; cases b3; cases b4; cases b5; cases b6; cases b7) simp_all
qed

lemma re_sub_outside_filter: "re_sub_outside s = filter (\<lambda>x. x \<in> label_alphabet) s"
  by (induction s) (auto simp: in_class_alphabet)

lemma isalpha_on_alphabet: "c \<in> label_alphabet \<Longrightarrow> isalpha c \<longleftrightarrow> c \<in> label_letters"
proof (cases c)
  case (Char b0 b1 b2 b3 b4 b5 b6 b7)
  assume "c \<in> label_alphabet"
  with Char show ?thesis
    unfolding isalpha_def label_alphabet_def label_letters_def Let_def
    by (cases b0; cases b1; cases b2; cases b3; cases b4; cases b5; cases b6; cases b7) simp_all
qed

lemma hd_filter_in: "filter P xs \<noteq> [] \<Longrightarrow> P (hd (filter P xs))"
  by (induction xs) (auto split: if_splits)

lemma truncate_take: "truncate s n = take n s"
  by (simp add: truncate_def)

lemma clean_label_refines: "clean_label s b = sanitize_spec s b"
proof (cases s)
  case None
  then show ?thesis by (simp add: clean_label_def sanitize_spec_def)
next
  case (Some str)
  define c where "c = filter (\<lambda>x. x \<in> label_alphabet) (map lower_char (dropWhile (\<lambda>x. x = CHR ''-'') str))"
  have "c \<noteq> [] \<Longrightarrow> hd c \<in> label_alphabet"
    unfolding c_def by (rule hd_filter_in)
  then have "c \<noteq> [] \<Longrightarrow> isalpha (hd c) \<longleftrightarrow> hd c \<in> label_letters"
    by (simp add: isalpha_on_alphabet)
  then show ?thesis
    using Some
    by (auto simp: clean_label_def sanitize_spec_def Let_def truncate_take
        re_sub_outside_filter str_lower_def lstrip_dropWhile c_def[symmetric])
qed


lemma map_of_dict_set: "map_of (dict_set k v d) = (map_of d)(k \<mapsto> v)"
  by (induction d) (auto simp: fun_eq_iff)

lemma keys_dict_set: "fst ` set (dict_set k v d) = insert k (fst ` set d)"
  by (induction d) auto

lemma set_dict_set: "set (dict_set k v d) \<subseteq> insert (k, v) (set d)"
  by (induction d) auto

lemma wf_dict_set: "wf_dict d \<Longrightarrow> wf_dict (dict_set k v d)"
  unfolding wf_dict_def
proof (induction d)
  case Nil
  then show ?case by simp
next
  case (Cons p d)
  have "fst ` set (dict_set k v d) = insert k (fst ` set d)" by (rule keys_dict_set)
  with Cons show ?case by (auto simp del: image_insert)
qed

lemma wf_dict_Nil: "wf_dict []"
  by (simp add: wf_dict_def)

lemma list_all_dict_set: "P (k, v) \<Longrightarrow> list_all P d \<Longrightarrow> list_all P (dict_set k v d)"
  by (induction d) auto

lemma sanitize_spec_alphabet: "set (sanitize_spec s b) \<subseteq> label_alphabet"
proof -
  have k: "CHR ''k'' \<in> label_alphabet" by (simp add: label_alphabet_def)
  show ?thesis
    by (cases s) (auto simp: sanitize_spec_def Let_def k dest!: in_set_takeD)
qed

lemma sanitize_spec_length: "length (sanitize_spec s b) \<le> 63"
  by (cases s) (simp_all add: sanitize_spec_def Let_def)

lemma sanitize_spec_key_hd: "sanitize_spec s True \<noteq> '''' \<Longrightarrow> hd (sanitize_spec s True) \<in> label_letters"
proof (cases s)
  case None
  assume "sanitize_spec s True \<noteq> ''''"
  with None show ?thesis by (simp add: sanitize_spec_def)
next
  case (Some str)
  have k: "CHR ''k'' \<in> label_letters" by (simp add: label_letters_def)
  assume "sanitize_spec s True \<noteq> ''''"
  with Some show ?thesis
    by (auto simp: sanitize_spec_def Let_def k split: if_splits)
qed

lemma value_label_ok: "value_ok (value_label v)"
  by (simp add: value_ok_def value_label_def clean_label_refines sanitize_spec_alphabet sanitize_spec_length)

lemma key_label_ok: "key_label k \<noteq> '''' \<Longrightarrow> key_ok (key_label k)"
  by (simp add: key_ok_def key_label_def clean_label_refines sanitize_spec_alphabet
      sanitize_spec_length sanitize_spec_key_hd)

lemma value_ok_empty: "value_ok ''''"
  by (simp add: value_ok_def)

lemma process_pair_ok: "labels_ok ret \<Longrightarrow> labels_ok (process_pair k v ret)"
  unfolding labels_ok_def process_pair_def Let_def
  by (auto intro!: list_all_dict_set simp: key_label_ok value_label_ok value_ok_empty)

lemma process_pair_wf: "wf_dict ret \<Longrightarrow> wf_dict (process_pair k v ret)"
  by (simp add: process_pair_def Let_def wf_dict_set)

lemma scan_windows_inv:
  assumes "scan_windows ws ret = Inr m" and "P ret" and "\<And>k v r. P r \<Longrightarrow> P (process_pair k v r)"
  shows "P m"
  using assms(1,2)
proof (induction ws arbitrary: ret)
  case Nil
  then show ?case by simp
next
  case (Cons w ws)
  then show ?case
    by (auto split: sum.splits intro: assms(3))
qed

lemma script_args_to_labels_inv:
  assumes "script_args_to_labels a = Inr m" and "P []" and "\<And>k v r. P r \<Longrightarrow> P (process_pair k v r)"
  shows "P m"
  using assms(1)
  unfolding script_args_to_labels_def
  by (auto split: option.splits if_splits sum.splits intro: assms(2,3) scan_windows_inv[where P=P])

lemma sanitize_labels_inv:
  assumes "P []" and "\<And>k v r. P r \<Longrightarrow> key_label (Some k) \<noteq> '''' \<Longrightarrow> P (dict_set (key_label (Some k)) (value_label (Some v)) r)"
  shows "P (sanitize_labels pairs)"
proof -
  have "P r \<Longrightarrow> P (fold (\<lambda>(k, v) ret. if key_label (Some k) \<noteq> ''''
                         then dict_set (key_label (Some k)) (value_label (Some v)) ret
                         else ret) pairs r)" for r
  proof (induction pairs arbitrary: r)
    case Nil
    then show ?case by simp
  next
    case (Cons p ps)
    obtain k v where p: "p = (k, v)" by (cases p)
    show ?case
    proof (cases "key_label (Some k) = ''''")
      case True
      with Cons p show ?thesis by simp
    next
      case False
      with Cons.prems have "P (dict_set (key_label (Some k)) (value_label (Some v)) r)"
        by (intro assms(2))
      with Cons.IH False p show ?thesis by simp
    qed
  qed
  then show ?thesis by (simp add: sanitize_labels_def assms(1))
qed

lemma sanitize_labels_filter:
  "sanitize_labels pairs = sanitize_labels (filter (\<lambda>(k, v). key_label (Some k) \<noteq> '''') pairs)"
proof -
  have "fold (\<lambda>(k, v) ret. if key_label (Some k) \<noteq> ''''
                         then dict_set (key_label (Some k)) (value_label (Some v)) ret
                         else ret) pairs r =
        fold (\<lambda>(k, v) ret. if key_label (Some k) \<noteq> ''''
                         then dict_set (key_label (Some k)) (value_label (Some v)) ret
                         else ret) (filter (\<lambda>(k, v). key_label (Some k) \<noteq> '''') pairs) r" for r
    by (induction pairs arbitrary: r) auto
  then show ?thesis by (simp add: sanitize_labels_def)
qed

section \<open>Properties of the argument pair parser\<close>

lemma map_of_process_pair:
  "map_of (process_pair k v ret) c =
     (if is_key k \<and> key_label k \<noteq> '''' \<and> key_label k = c
      then Some (if is_key v then '''' else value_label v) else map_of ret c)"
  by (simp add: process_pair_def Let_def map_of_dict_set)

lemma partition_seq_2:
  assumes "2 \<le> length xs"
  shows "partition_seq xs 2 = map (\<lambda>i. take 2 (drop i xs)) [0 ..< length xs - 1]"
proof -
  have "nat (max 1 (int (length xs) - int 2 + 1)) = length xs - 1"
    using assms by simp
  then show ?thesis by (simp only: partition_seq_def)
qed

lemma partition_seq_pairs:
  assumes "2 \<le> length xs"
  shows "partition_seq xs 2 = map (\<lambda>(a, b). [a, b]) (zip xs (tl xs))"
proof (rule nth_equalityI)
  show "length (partition_seq xs 2) = length (map (\<lambda>(a, b). [a, b]) (zip xs (tl xs)))"
    using assms by (simp add: partition_seq_2)
next
  fix i assume "i < length (partition_seq xs 2)"
  with assms have i: "Suc i < length xs" by (simp add: partition_seq_2)
  then have "take 2 (drop i xs) = [xs ! i, xs ! Suc i]"
    by (simp add: numeral_2_eq_2 take_Suc_conv_app_nth Cons_nth_drop_Suc[symmetric])
  with i assms show "partition_seq xs 2 ! i = map (\<lambda>(a, b). [a, b]) (zip xs (tl xs)) ! i"
    by (simp add: partition_seq_2 nth_tl)
qed

lemma scan_windows_pairs:
  "scan_windows (map (\<lambda>(a, b). [a, b]) ps) ret =
     Inr (fold (\<lambda>(a, b). process_pair (Some a) (Some b)) ps ret)"
  by (induction ps arbitrary: ret) auto

lemma script_args_to_labels_unfold:
  "2 \<le> length args \<Longrightarrow>
   script_args_to_labels (Some args) =
     Inr (process_pair (Some (last args)) None
           (fold (\<lambda>(a, b). process_pair (Some a) (Some b)) (zip args (tl args)) []))"
  by (auto simp add: script_args_to_labels_def partition_seq_pairs scan_windows_pairs)

lemma script_args_to_labels_returns:
  "length args \<noteq> 1 \<Longrightarrow> \<exists>m. script_args_to_labels (Some args) = Inr m"
proof (cases "length args = 0")
  case True
  then show ?thesis by (simp add: script_args_to_labels_def)
next
  case False
  assume "length args \<noteq> 1"
  with False have "2 \<le> length args" by linarith
  then show ?thesis by (simp add: script_args_to_labels_unfold)
qed

lemma fold_process_pair_untouched:
  "(\<And>a b. (a, b) \<in> set ps \<Longrightarrow> \<not> (is_key (Some a) \<and> key_label (Some a) = c)) \<Longrightarrow>
   map_of (fold (\<lambda>(a, b). process_pair (Some a) (Some b)) ps ret) c = map_of ret c"
proof (induction ps arbitrary: ret)
  case Nil
  then show ?case by simp
next
  case (Cons p ps)
  obtain a b where p: "p = (a, b)" by (cases p)
  have "(a, b) \<in> set (p # ps)" using p by simp
  then have "\<not> (is_key (Some a) \<and> key_label (Some a) = c)" by (rule Cons.prems)
  then have s: "map_of (process_pair (Some a) (Some b) ret) c = map_of ret c"
    by (simp only: map_of_process_pair) auto
  have "map_of (fold (\<lambda>(a, b). process_pair (Some a) (Some b)) ps (process_pair (Some a) (Some b) ret)) c
      = map_of (process_pair (Some a) (Some b) ret) c"
  proof (rule Cons.IH)
    fix a' b' assume "(a', b') \<in> set ps"
    then have "(a', b') \<in> set (p # ps)" by simp
    then show "\<not> (is_key (Some a') \<and> key_label (Some a') = c)" by (rule Cons.prems)
  qed
  with s p show ?case by simp
qed

lemma count_key_one:
  "wf_dict d \<Longrightarrow> map_of d c = Some v \<Longrightarrow> length (filter (\<lambda>p. fst p = c) d) = 1"
  unfolding wf_dict_def
proof (induction d)
  case Nil
  then show ?case by simp
next
  case (Cons p d)
  show ?case
  proof (cases "fst p = c")
    case True
    with Cons.prems have "c \<notin> fst ` set d" by auto
    then have "filter (\<lambda>p. fst p = c) d = []" by (auto simp: filter_empty_conv)
    with True show ?thesis by simp
  next
    case False
    with Cons show ?thesis by (cases p) auto
  qed
qed

lemma zip_tl_split:
  assumes "Suc i < length xs"
  shows "zip xs (tl xs) = take i (zip xs (tl xs)) @ (xs ! i, xs ! Suc i) # drop (Suc i) (zip xs (tl xs))"
proof -
  have "i < length (zip xs (tl xs))" using assms by simp
  then have "zip xs (tl xs) = take i (zip xs (tl xs)) @ (zip xs (tl xs) ! i) # drop (Suc i) (zip xs (tl xs))"
    by (rule id_take_nth_drop)
  moreover have "zip xs (tl xs) ! i = (xs ! i, xs ! Suc i)" using assms by (simp add: nth_tl)
  ultimately show ?thesis by simp
qed

lemma in_drop_zip_tl:
  assumes "(a, b) \<in> set (drop (Suc i) (zip xs (tl xs)))"
  shows "\<exists>j. i < j \<and> j < length xs \<and> a = xs ! j"
proof -
  from assms obtain n where n: "n < length (drop (Suc i) (zip xs (tl xs)))"
      and e: "drop (Suc i) (zip xs (tl xs)) ! n = (a, b)"
    by (auto simp: in_set_conv_nth)
  from n have "Suc i + n < length (zip xs (tl xs))" by simp
  then have l: "Suc (Suc i + n) < length xs" by simp
  with e have "a = xs ! (Suc i + n)" by (simp add: nth_tl)
  with l show ?thesis by (intro exI[of _ "Suc i + n"]) simp
qed

lemma window_wins:
  assumes r: "script_args_to_labels (Some args) = Inr m"
    and i: "i + 1 < length args"
    and k: "is_key (Some (args ! i))" "key_label (Some (args ! i)) = c" "c \<noteq> ''''"
    and later: "\<And>j. i < j \<Longrightarrow> j < length args \<Longrightarrow> \<not> (is_key (Some (args ! j)) \<and> key_label (Some (args ! j)) = c)"
  shows "map_of m c = Some (if is_key (Some (args ! (i + 1))) then '''' else value_label (Some (args ! (i + 1))))"
proof -
  define f where "f = (\<lambda>(a :: string, b :: string). process_pair (Some a) (Some b))"
  define pre where "pre = take i (zip args (tl args))"
  define post where "post = drop (Suc i) (zip args (tl args))"
  from i have len: "2 \<le> length args" by simp
  from i have ne: "args \<noteq> []" by auto
  have split: "zip args (tl args) = pre @ (args ! i, args ! Suc i) # post"
    unfolding pre_def post_def using i by (intro zip_tl_split) simp
  have "script_args_to_labels (Some args) = Inr (process_pair (Some (last args)) None (fold f (zip args (tl args)) []))"
    unfolding f_def using len by (rule script_args_to_labels_unfold)
  with r have m: "m = process_pair (Some (last args)) None (fold f (zip args (tl args)) [])"
    by simp
  have lastidx: "last args = args ! (length args - 1)" using ne by (simp add: last_conv_nth)
  have nolast: "\<not> (is_key (Some (last args)) \<and> key_label (Some (last args)) = c)"
    unfolding lastidx using i by (intro later) simp_all
  have fz: "fold f (zip args (tl args)) [] = fold f post (process_pair (Some (args ! i)) (Some (args ! Suc i)) (fold f pre []))"
    unfolding split by (simp add: f_def)
  have un: "map_of (fold f post r') c = map_of r' c" for r'
    unfolding f_def
  proof (rule fold_process_pair_untouched)
    fix a b assume "(a, b) \<in> set post"
    then have "\<exists>j. i < j \<and> j < length args \<and> a = args ! j"
      unfolding post_def by (rule in_drop_zip_tl)
    then obtain j where "i < j" "j < length args" "a = args ! j" by blast
    then show "\<not> (is_key (Some a) \<and> key_label (Some a) = c)" using later by simp
  qed
  have "map_of (fold f (zip args (tl args)) []) c = map_of (process_pair (Some (args ! i)) (Some (args ! Suc i)) (fold f pre [])) c"
    by (simp only: fz un)
  also have "\<dots> = Some (if is_key (Some (args ! Suc i)) then '''' else value_label (Some (args ! Suc i)))"
    using k by (simp add: map_of_process_pair)
  finally have v: "map_of (fold f (zip args (tl args)) []) c = Some (if is_key (Some (args ! Suc i)) then '''' else value_label (Some (args ! Suc i)))" .
  have "map_of m c = map_of (fold f (zip args (tl args)) []) c"
    unfolding m using nolast by (simp only: map_of_process_pair) auto
  with v show ?thesis by simp
qed

lemma trailing_wins:
  assumes r: "script_args_to_labels (Some args) = Inr m"
    and len: "1 < length args"
    and k: "is_key (Some (last args))" "key_label (Some (last args)) = c" "c \<noteq> ''''"
  shows "map_of m c = Some ''''"
proof -
  from len have "2 \<le> length args" by simp
  with r have "m = process_pair (Some (last args)) None (fold (\<lambda>(a, b). process_pair (Some a) (Some b)) (zip args (tl args)) [])"
    by (simp add: script_args_to_labels_unfold)
  moreover have "\<not> is_key None" by (simp add: is_key_def)
  moreover have "value_label None = ''''" by (simp add: value_label_def clean_label_def)
  ultimately show ?thesis using k by (simp add: map_of_process_pair)
qed

lemma sanitize_labels_fold_map_of:
  assumes "\<And>k v. (k, v) \<in> set qs \<Longrightarrow> key_label (Some k) \<noteq> c"
  shows "map_of (fold (\<lambda>(k, v) ret. if key_label (Some k) \<noteq> ''''
                         then dict_set (key_label (Some k)) (value_label (Some v)) ret
                         else ret) qs r) c = map_of r c"
  using assms
proof (induction qs arbitrary: r)
  case Nil
  then show ?case by simp
next
  case (Cons q qs)
  obtain k v where q: "q = (k, v)" by (cases q)
  have "(k, v) \<in> set (q # qs)" using q by simp
  then have ne: "key_label (Some k) \<noteq> c" by (rule Cons.prems)
  have rest: "\<And>k v. (k, v) \<in> set qs \<Longrightarrow> key_label (Some k) \<noteq> c"
  proof -
    fix k' v' assume "(k', v') \<in> set qs"
    then have "(k', v') \<in> set (q # qs)" by simp
    then show "key_label (Some k') \<noteq> c" by (rule Cons.prems)
  qed
  show ?case using q ne Cons.IH[OF rest] by (simp add: map_of_dict_set)
qed

lemma sanitize_labels_last:
  assumes "key_label (Some k) = c" "c \<noteq> ''''"
    and "\<And>k' v'. (k', v') \<in> set qs \<Longrightarrow> key_label (Some k') \<noteq> c"
  shows "map_of (sanitize_labels (ps @ (k, v) # qs)) c = Some (value_label (Some v))"
proof -
  have "map_of (sanitize_labels (ps @ (k, v) # qs)) c
      = map_of (dict_set c (value_label (Some v)) (fold (\<lambda>(k, v) ret. if key_label (Some k) \<noteq> ''''
                         then dict_set (key_label (Some k)) (value_label (Some v)) ret
                         else ret) ps [])) c"
    unfolding sanitize_labels_def using assms(1,2)
    by (simp add: sanitize_labels_fold_map_of[OF assms(3)])
  then show ?thesis by (simp add: map_of_dict_set)
qed


lemma scan_windows_take:
  "2 \<le> length args \<Longrightarrow>
   scan_windows (take n (partition_seq args 2)) ret =
     Inr (fold (\<lambda>(a, b). process_pair (Some a) (Some b)) (take n (zip args (tl args))) ret)"
  by (simp only: partition_seq_pairs take_map scan_windows_pairs)

lemma take_Suc_zip_tl:
  assumes "Suc i < length xs"
  shows "take (Suc i) (zip xs (tl xs)) = take i (zip xs (tl xs)) @ [(xs ! i, xs ! Suc i)]"
proof -
  have "i < length (zip xs (tl xs))" using assms by simp
  then have "take (Suc i) (zip xs (tl xs)) = take i (zip xs (tl xs)) @ [zip xs (tl xs) ! i]"
    by (rule take_Suc_conv_app_nth)
  moreover have "zip xs (tl xs) ! i = (xs ! i, xs ! Suc i)" using assms by (simp add: nth_tl)
  ultimately show ?thesis by simp
qed

lemma scan_windows_step:
  assumes "i + 1 < length args"
  shows "scan_windows (take (Suc i) (partition_seq args 2)) [] =
     Inr (process_pair (Some (args ! i)) (Some (args ! (i + 1)))
            (fold (\<lambda>(a, b). process_pair (Some a) (Some b)) (take i (zip args (tl args))) []))"
proof -
  from assms have len: "2 \<le> length args" by simp
  from assms have "Suc i < length args" by simp
  then have "take (Suc i) (zip args (tl args)) = take i (zip args (tl args)) @ [(args ! i, args ! Suc i)]"
    by (rule take_Suc_zip_tl)
  then show ?thesis by (simp add: scan_windows_take[OF len])
qed

section \<open>Properties of the configuration expander\<close>

lemma dict_set_fresh: "k \<notin> fst ` set d \<Longrightarrow> dict_set k v d = d @ [(k, v)]"
  by (induction d) auto

lemma fold_dict_set_distinct:
  "distinct (map fst (acc @ ps)) \<Longrightarrow> fold (\<lambda>(k, v) d. dict_set k v d) ps acc = acc @ ps"
proof (induction ps arbitrary: acc)
  case Nil
  then show ?case by simp
next
  case (Cons p ps)
  obtain k v where p: "p = (k, v)" by (cases p)
  from Cons.prems p have fresh: "k \<notin> fst ` set acc" by auto
  from Cons.prems p have "distinct (map fst ((acc @ [(k, v)]) @ ps))" by simp
  then have "fold (\<lambda>(k, v) d. dict_set k v d) ps (acc @ [(k, v)]) = (acc @ [(k, v)]) @ ps"
    by (rule Cons.IH)
  with fresh p show ?case by (simp add: dict_set_fresh)
qed

lemma dict_of_pairs_wf: "wf_dict ps \<Longrightarrow> dict_of_pairs ps = ps"
  using fold_dict_set_distinct[of "[]" ps] by (simp add: dict_of_pairs_def wf_dict_def)

lemma length_it_product: "length (it_product xss) = prod_list (map length xss)"
proof (induction xss)
  case Nil
  then show ?case by simp
next
  case (Cons xs xss)
  have "length (concat (map (\<lambda>x. map (\<lambda>t. x # t) (it_product xss)) xs))
      = length xs * length (it_product xss)"
    by (induction xs) simp_all
  with Cons show ?case by simp
qed

lemma it_product_member:
  "x \<in> set (it_product xss) \<longleftrightarrow> list_all2 (\<lambda>e xs. e \<in> set xs) x xss"
proof (induction xss arbitrary: x)
  case Nil
  then show ?case by auto
next
  case (Cons xs xss)
  show ?case
  proof (cases x)
    case Nil
    then show ?thesis by auto
  next
    case (Cons e t)
    with Cons.IH[of t] show ?thesis by auto
  qed
qed

lemma it_product_empty: "[] \<in> set xss \<Longrightarrow> it_product xss = []"
  by (induction xss) auto

lemma dict_product_wf:
  assumes "wf_dict m"
  shows "dict_product m = map (\<lambda>x. zip (map fst m) x) (it_product (map (\<lambda>(k, v). wrap_v v) m))"
proof -
  let ?c = "map (\<lambda>(k, v). (k, wrap_v v)) m"
  have fst: "map fst ?c = map fst m" by (induction m) auto
  have snd: "map snd ?c = map (\<lambda>(k, v). wrap_v v) m" by (induction m) auto
  have "wf_dict ?c" using assms unfolding wf_dict_def by (simp only: fst)
  then have c: "dict_of_pairs ?c = ?c" by (rule dict_of_pairs_wf)
  have "dict_of_pairs (zip (map fst m) x) = zip (map fst m) x"
    if "x \<in> set (it_product (map (\<lambda>(k, v). wrap_v v) m))" for x
  proof -
    from that have "length x = length m"
      by (auto simp: it_product_member dest: list_all2_lengthD)
    with assms have "wf_dict (zip (map fst m) x)" by (simp add: wf_dict_def)
    then show ?thesis by (rule dict_of_pairs_wf)
  qed
  then show ?thesis
    unfolding dict_product_def Let_def c fst snd by simp
qed

lemma it_product_member_wrap:
  "x \<in> set (it_product (map (\<lambda>(k, v). wrap_v v) m))
     \<longleftrightarrow> list_all2 (\<lambda>x (k, v). x \<in> set (wrap_v v)) x m"
  by (simp add: it_product_member list_all2_map2 case_prod_unfold)


section \<open>Properties of the table reshaper\<close>

lemma map_of_setdefault:
  "map_of (snd (setdefault k dflt d)) = (map_of d)(k \<mapsto> fst (setdefault k dflt d))"
  by (auto simp: setdefault_def map_of_dict_set fun_eq_iff split: option.splits)

lemma fst_setdefault:
  "fst (setdefault k dflt d) = (case map_of d k of None \<Rightarrow> dflt | Some v \<Rightarrow> v)"
  by (simp add: setdefault_def split: option.splits)

lemma wf_setdefault: "wf_dict d \<Longrightarrow> wf_dict (snd (setdefault k dflt d))"
  by (simp add: setdefault_def wf_dict_set split: option.splits)

lemma map_of_invertm_body:
  "map_of (invertm_body k v ret) v' =
     (if v' = v then Some (insert k (members ret v)) else map_of ret v')"
  by (simp add: invertm_body_def case_prod_unfold map_of_dict_set map_of_setdefault
      fst_setdefault members_def)

lemma wf_invertm_body: "wf_dict ret \<Longrightarrow> wf_dict (invertm_body k v ret)"
  by (simp add: invertm_body_def case_prod_unfold Let_def wf_dict_set wf_setdefault)

lemma invertm_inner:
  "map_of (fold (\<lambda>v ret. invertm_body k v ret) vs ret) v' =
     (if v' \<in> set vs then Some (insert k (members ret v')) else map_of ret v')"
proof (induction vs arbitrary: ret)
  case Nil
  then show ?case by simp
next
  case (Cons v vs)
  show ?case
    by (simp add: Cons.IH map_of_invertm_body members_def)
qed

lemma invertm_outer:
  "map_of (fold (\<lambda>(k, vs) ret. fold (\<lambda>v ret. invertm_body k v ret) vs ret) table ret) v' =
     (if \<exists>k vs. (k, vs) \<in> set table \<and> v' \<in> set vs
      then Some ({k. \<exists>vs. (k, vs) \<in> set table \<and> v' \<in> set vs} \<union> members ret v')
      else map_of ret v')"
proof (induction table arbitrary: ret)
  case Nil
  then show ?case by simp
next
  case (Cons p table)
  obtain k vs where p: "p = (k, vs)" by (cases p)
  define ret' where "ret' = fold (\<lambda>v ret. invertm_body k v ret) vs ret"
  have m: "members ret' v' = (if v' \<in> set vs then insert k (members ret v') else members ret v')"
    by (simp add: ret'_def members_def invertm_inner)
  have mo: "map_of ret' v' = (if v' \<in> set vs then Some (insert k (members ret v')) else map_of ret v')"
    unfolding ret'_def by (rule invertm_inner)
  have "map_of (fold (\<lambda>(k, vs) ret. fold (\<lambda>v ret. invertm_body k v ret) vs ret) (p # table) ret) v'
      = map_of (fold (\<lambda>(k, vs) ret. fold (\<lambda>v ret. invertm_body k v ret) vs ret) table ret') v'"
    by (simp add: p ret'_def)
  also have "\<dots> = (if \<exists>k vs. (k, vs) \<in> set table \<and> v' \<in> set vs
      then Some ({k. \<exists>vs. (k, vs) \<in> set table \<and> v' \<in> set vs} \<union> members ret' v')
      else map_of ret' v')"
    by (rule Cons.IH)
  also have "\<dots> = (if \<exists>k vs. (k, vs) \<in> set (p # table) \<and> v' \<in> set vs
      then Some ({k. \<exists>vs. (k, vs) \<in> set (p # table) \<and> v' \<in> set vs} \<union> members ret v')
      else map_of ret v')"
    unfolding m mo p by auto
  finally show ?case .
qed

lemma wf_invertm_inner:
  "wf_dict ret \<Longrightarrow> wf_dict (fold (\<lambda>v ret. invertm_body k v ret) vs ret)"
  by (induction vs arbitrary: ret) (simp_all add: wf_invertm_body)

lemma wf_invertm_outer:
  "wf_dict ret \<Longrightarrow>
   wf_dict (fold (\<lambda>(k, vs) ret. fold (\<lambda>v ret. invertm_body k v ret) vs ret) table ret)"
  by (induction table arbitrary: ret) (auto simp: wf_invertm_inner)

lemma wf_invertm: "wf_dict (invertm table)"
  by (simp add: invertm_def wf_invertm_outer wf_dict_Nil)

lemma map_of_flipm_body:
  "map_of (flipm_body k k2 v ret) a =
     (if a = k2 then Some (dict_set k v (case map_of ret k2 of None \<Rightarrow> [] | Some m \<Rightarrow> m))
      else map_of ret a)"
  by (simp add: flipm_body_def case_prod_unfold Let_def map_of_dict_set map_of_setdefault fst_setdefault)

lemma lookup2_flipm_body:
  "lookup2 (flipm_body k k2 v ret) a b =
     (if a = k2 \<and> b = k then Some v else lookup2 ret a b)"
  by (auto simp: lookup2_def map_of_flipm_body map_of_dict_set split: option.splits)

lemma lookup2_flipm_inner:
  "wf_dict m \<Longrightarrow>
   lookup2 (fold (\<lambda>(k2, v) ret. flipm_body k k2 v ret) m ret) a b =
     (if b = k \<and> a \<in> fst ` set m then map_of m a else lookup2 ret a b)"
proof (induction m arbitrary: ret)
  case Nil
  then show ?case by simp
next
  case (Cons p m)
  obtain k2 v where p: "p = (k2, v)" by (cases p)
  from Cons.prems p have wf: "wf_dict m" and fresh: "k2 \<notin> fst ` set m"
    by (auto simp: wf_dict_def)
  have "lookup2 (fold (\<lambda>(k2, v) ret. flipm_body k k2 v ret) (p # m) ret) a b
      = lookup2 (fold (\<lambda>(k2, v) ret. flipm_body k k2 v ret) m (flipm_body k k2 v ret)) a b"
    by (simp add: p)
  also have "\<dots> = (if b = k \<and> a \<in> fst ` set m then map_of m a
                    else lookup2 (flipm_body k k2 v ret) a b)"
    by (rule Cons.IH[OF wf])
  also have "\<dots> = (if b = k \<and> a \<in> fst ` set (p # m) then map_of (p # m) a else lookup2 ret a b)"
    using fresh by (auto simp: p lookup2_flipm_body)
  finally show ?case .
qed

lemma lookup2_flipm_outer:
  "table_wf t \<Longrightarrow>
   lookup2 (fold (\<lambda>(k, m) ret. fold (\<lambda>(k2, v) ret. flipm_body k k2 v ret) m ret) t ret) a b =
     (case map_of t b of
        Some m \<Rightarrow> if a \<in> fst ` set m then map_of m a else lookup2 ret a b
      | None \<Rightarrow> lookup2 ret a b)"
proof (induction t arbitrary: ret)
  case Nil
  then show ?case by simp
next
  case (Cons p t)
  obtain k m where p: "p = (k, m)" by (cases p)
  from Cons.prems p have wft: "table_wf t" and wfm: "wf_dict m" and fresh: "k \<notin> fst ` set t"
    by (auto simp: table_wf_def wf_dict_def)
  from fresh have none: "map_of t k = None" by (simp add: map_of_eq_None_iff)
  define ret' where "ret' = fold (\<lambda>(k2, v) ret. flipm_body k k2 v ret) m ret"
  have r': "lookup2 ret' a b = (if b = k \<and> a \<in> fst ` set m then map_of m a else lookup2 ret a b)"
    unfolding ret'_def by (rule lookup2_flipm_inner[OF wfm])
  have "lookup2 (fold (\<lambda>(k, m) ret. fold (\<lambda>(k2, v) ret. flipm_body k k2 v ret) m ret) (p # t) ret) a b
      = lookup2 (fold (\<lambda>(k, m) ret. fold (\<lambda>(k2, v) ret. flipm_body k k2 v ret) m ret) t ret') a b"
    by (simp add: p ret'_def)
  also have "\<dots> = (case map_of t b of
        Some m \<Rightarrow> if a \<in> fst ` set m then map_of m a else lookup2 ret' a b
      | None \<Rightarrow> lookup2 ret' a b)"
    by (rule Cons.IH[OF wft])
  also have "\<dots> = (case map_of (p # t) b of
        Some m \<Rightarrow> if a \<in> fst ` set m then map_of m a else lookup2 ret a b
      | None \<Rightarrow> lookup2 ret a b)"
  proof (cases "b = k")
    case True
    with none r' show ?thesis by (simp add: p)
  next
    case False
    with r' show ?thesis by (simp add: p split: option.splits)
  qed
  finally show ?case .
qed

lemma lookup2_flipm: "table_wf t \<Longrightarrow> lookup2 (flipm t) a b = lookup2 t b a"
proof -
  assume wf: "table_wf t"
  have e: "lookup2 ([] :: ('b, ('a, 'c) dict) dict) a b = None" by (simp add: lookup2_def)
  have "map_of m a = None" if "a \<notin> fst ` set m" for m :: "('b, 'c) dict"
    using that by (simp add: map_of_eq_None_iff)
  then show ?thesis
    unfolding flipm_def lookup2_flipm_outer[OF wf] e
    by (auto simp: lookup2_def split: option.splits)
qed

lemma dict_set_twice: "dict_set k v (dict_set k w d) = dict_set k v d"
  by (induction d) auto

lemma dict_set_nonempty: "dict_set k v d \<noteq> []"
  by (cases d) auto

lemma flipm_body_alt:
  "flipm_body k k2 v ret =
     dict_set k2 (dict_set k v (case map_of ret k2 of None \<Rightarrow> [] | Some m \<Rightarrow> m)) ret"
  by (simp add: flipm_body_def setdefault_def dict_set_twice split: option.splits)

lemma flip_inv_body: "flip_inv ret \<Longrightarrow> flip_inv (flipm_body k k2 v ret)"
proof -
  assume inv: "flip_inv ret"
  define inner where "inner = (case map_of ret k2 of None \<Rightarrow> [] | Some m \<Rightarrow> m)"
  have "wf_dict inner"
  proof (cases "map_of ret k2")
    case None
    then show ?thesis by (simp add: inner_def wf_dict_Nil)
  next
    case (Some m)
    then have "(k2, m) \<in> set ret" by (rule map_of_SomeD)
    with inv have "wf_dict m" by (auto simp: flip_inv_def list_all_iff)
    with Some show ?thesis by (simp add: inner_def)
  qed
  then have "wf_dict (dict_set k v inner) \<and> dict_set k v inner \<noteq> []"
    by (simp add: wf_dict_set dict_set_nonempty)
  with inv show ?thesis
    unfolding flipm_body_alt inner_def[symmetric] flip_inv_def
    by (auto intro!: list_all_dict_set wf_dict_set)
qed

lemma flip_inv_inner:
  "flip_inv ret \<Longrightarrow> flip_inv (fold (\<lambda>(k2, v) ret. flipm_body k k2 v ret) m ret)"
  by (induction m arbitrary: ret) (auto simp: flip_inv_body)

lemma flip_inv_outer:
  "flip_inv ret \<Longrightarrow>
   flip_inv (fold (\<lambda>(k, m) ret. fold (\<lambda>(k2, v) ret. flipm_body k k2 v ret) m ret) t ret)"
  by (induction t arbitrary: ret) (auto simp: flip_inv_inner)

lemma flip_inv_flipm: "flip_inv (flipm t)"
proof -
  have "flip_inv ([] :: ('a, ('b, 'c) dict) dict)" by (simp add: flip_inv_def wf_dict_Nil)
  then show ?thesis unfolding flipm_def by (rule flip_inv_outer)
qed

lemma flip_inv_table_wf: "flip_inv t \<Longrightarrow> table_wf t \<and> nonempty_inner t"
  by (auto simp: flip_inv_def table_wf_def nonempty_inner_def list_all_iff)

lemma lookup2_None: "map_of A k = None \<Longrightarrow> lookup2 A k b = None"
  by (simp add: lookup2_def)

lemma lookup2_nonempty:
  assumes "nonempty_inner A" and "map_of A k = Some m"
  shows "\<exists>b v. lookup2 A k b = Some v"
proof -
  from assms(2) have "(k, m) \<in> set A" by (rule map_of_SomeD)
  with assms(1) have "m \<noteq> []" by (auto simp: nonempty_inner_def list_all_iff)
  then obtain b v m' where "m = (b, v) # m'" by (cases m) auto
  then have "map_of m b = Some v" by simp
  with assms(2) show ?thesis by (auto simp: lookup2_def)
qed

lemma table_sem_eqI:
  assumes neA: "nonempty_inner A" and neB: "nonempty_inner B"
    and eq: "\<And>a b. lookup2 A a b = lookup2 B a b"
  shows "table_sem A = table_sem B"
proof (rule ext)
  fix k
  show "table_sem A k = table_sem B k"
  proof (cases "map_of A k")
    case None
    then have n: "\<And>b. lookup2 B k b = None" using eq[symmetric] by (simp add: lookup2_None)
    have "map_of B k = None"
    proof (cases "map_of B k")
      case None
      then show ?thesis .
    next
      case (Some m)
      with neB have "\<exists>b v. lookup2 B k b = Some v" by (rule lookup2_nonempty)
      with n show ?thesis by simp
    qed
    with None show ?thesis by (simp add: table_sem_def)
  next
    case (Some m)
    from lookup2_nonempty[OF neA Some] obtain b v where "lookup2 A k b = Some v" by blast
    then have "lookup2 B k b = Some v" by (simp add: eq)
    then obtain m' where B: "map_of B k = Some m'" by (auto simp: lookup2_def split: option.splits)
    have "map_of m c = map_of m' c" for c
      using eq[of k c] Some B by (simp add: lookup2_def)
    then have "map_of m = map_of m'" by (rule ext)
    with Some B show ?thesis by (simp add: table_sem_def)
  qed
qed

lemma py_index_fields:
  "i \<in> {0, 1, 2} \<Longrightarrow> py_index [k, k2, v] i = Inr ([k, k2, v] ! nat i)"
  by (auto simp: py_index_def)

lemma reorderm_body_pure:
  assumes "fst order \<in> {0, 1, 2}" "fst (snd order) \<in> {0, 1, 2}" "snd (snd order) \<in> {0, 1, 2}"
  shows "reorderm_body order k k2 v ret = Inr (reorder_put (regroup order k k2 v) ret)"
  unfolding reorderm_body_def Let_def py_index_fields[OF assms(1)] py_index_fields[OF assms(2)]
    py_index_fields[OF assms(3)] reorder_put_def regroup_def
  by (simp add: case_prod_unfold)

lemma fold_err_pure:
  "(\<And>x s. x \<in> set xs \<Longrightarrow> f x s = Inr (g x s)) \<Longrightarrow> fold_err f xs s = Inr (fold g xs s)"
proof (induction xs arbitrary: s)
  case Nil
  then show ?case by simp
next
  case (Cons x xs)
  have "f x s = Inr (g x s)" by (rule Cons.prems) simp
  moreover have "fold_err f xs (g x s) = Inr (fold g xs (g x s))"
    by (rule Cons.IH) (rule Cons.prems, simp)
  ultimately show ?case by simp
qed

lemma leaf_reorder_put:
  "leaf (reorder_put (a, b, x) ret) a' b' =
     (if a' = a \<and> b' = b then insert x (leaf ret a b) else leaf ret a' b')"
  by (auto simp: leaf_def reorder_put_def case_prod_unfold Let_def map_of_dict_set
      map_of_setdefault fst_setdefault split: option.splits)

lemma leaf_fold_values:
  "leaf (fold (\<lambda>v ret. reorder_put (g v) ret) vs r) a b =
     leaf r a b \<union> {x. \<exists>v. v \<in> set vs \<and> g v = (a, b, x)}"
proof (induction vs arbitrary: r)
  case Nil
  then show ?case by simp
next
  case (Cons v vs)
  obtain a' b' x' where g: "g v = (a', b', x')" by (cases "g v")
  have "leaf (fold (\<lambda>v ret. reorder_put (g v) ret) (v # vs) r) a b
      = leaf (reorder_put (a', b', x') r) a b \<union> {x. \<exists>v. v \<in> set vs \<and> g v = (a, b, x)}"
    by (simp add: Cons.IH g)
  also have "\<dots> = leaf r a b \<union> {x. \<exists>w. w \<in> set (v # vs) \<and> g w = (a, b, x)}"
    using g by (auto simp: leaf_reorder_put)
  finally show ?case .
qed

lemma leaf_fold_inner:
  "leaf (fold (\<lambda>(k2, vs) ret. fold (\<lambda>v ret. reorder_put (g k2 v) ret) vs ret) m r) a b =
     leaf r a b \<union> {x. \<exists>k2 vs v. (k2, vs) \<in> set m \<and> v \<in> set vs \<and> g k2 v = (a, b, x)}"
proof (induction m arbitrary: r)
  case Nil
  then show ?case by simp
next
  case (Cons p m)
  obtain k2 vs where p: "p = (k2, vs)" by (cases p)
  have "leaf (fold (\<lambda>(k2, vs) ret. fold (\<lambda>v ret. reorder_put (g k2 v) ret) vs ret) (p # m) r) a b
      = (leaf r a b \<union> {x. \<exists>v. v \<in> set vs \<and> g k2 v = (a, b, x)})
        \<union> {x. \<exists>k2 vs v. (k2, vs) \<in> set m \<and> v \<in> set vs \<and> g k2 v = (a, b, x)}"
    by (simp add: p Cons.IH leaf_fold_values)
  also have "\<dots> = leaf r a b
      \<union> {x. \<exists>k2 vs v. (k2, vs) \<in> set (p # m) \<and> v \<in> set vs \<and> g k2 v = (a, b, x)}"
    unfolding p list.set(2) by blast
  finally show ?case .
qed

lemma leaf_fold_outer:
  "leaf (fold (\<lambda>(k, m) ret.
            fold (\<lambda>(k2, vs) ret. fold (\<lambda>v ret. reorder_put (g k k2 v) ret) vs ret) m ret) t r) a b =
     leaf r a b
     \<union> {x. \<exists>k m k2 vs v. (k, m) \<in> set t \<and> (k2, vs) \<in> set m \<and> v \<in> set vs \<and> g k k2 v = (a, b, x)}"
proof (induction t arbitrary: r)
  case Nil
  then show ?case by simp
next
  case (Cons p t)
  obtain k m where p: "p = (k, m)" by (cases p)
  have "leaf (fold (\<lambda>(k, m) ret.
            fold (\<lambda>(k2, vs) ret. fold (\<lambda>v ret. reorder_put (g k k2 v) ret) vs ret) m ret) (p # t) r) a b
      = (leaf r a b \<union> {x. \<exists>k2 vs v. (k2, vs) \<in> set m \<and> v \<in> set vs \<and> g k k2 v = (a, b, x)})
        \<union> {x. \<exists>k m k2 vs v. (k, m) \<in> set t \<and> (k2, vs) \<in> set m \<and> v \<in> set vs \<and> g k k2 v = (a, b, x)}"
    by (simp add: p Cons.IH leaf_fold_inner)
  also have "\<dots> = leaf r a b
      \<union> {x. \<exists>k m k2 vs v. (k, m) \<in> set (p # t) \<and> (k2, vs) \<in> set m \<and> v \<in> set vs \<and> g k k2 v = (a, b, x)}"
    unfolding p list.set(2) by blast
  finally show ?case .
qed

lemma reorderm_values_pure:
  assumes "fst order \<in> {0, 1, 2}" "fst (snd order) \<in> {0, 1, 2}" "snd (snd order) \<in> {0, 1, 2}"
  shows "fold_err (\<lambda>v ret. reorderm_body order k k2 v ret) vs ret
      = Inr (fold (\<lambda>v ret. reorder_put (regroup order k k2 v) ret) vs ret)"
  by (rule fold_err_pure) (rule reorderm_body_pure[OF assms])

lemma reorderm_inner_pure:
  assumes "fst order \<in> {0, 1, 2}" "fst (snd order) \<in> {0, 1, 2}" "snd (snd order) \<in> {0, 1, 2}"
  shows "fold_err (\<lambda>(k2, vs) ret. fold_err (\<lambda>v ret. reorderm_body order k k2 v ret) vs ret) m ret
      = Inr (fold (\<lambda>(k2, vs) ret. fold (\<lambda>v ret. reorder_put (regroup order k k2 v) ret) vs ret) m ret)"
  by (rule fold_err_pure) (auto simp: reorderm_values_pure[OF assms])

lemma reorderm_pure:
  assumes "fst order \<in> {0, 1, 2}" "fst (snd order) \<in> {0, 1, 2}" "snd (snd order) \<in> {0, 1, 2}"
  shows "reorderm table order =
     Inr (fold (\<lambda>(k, m) ret.
            fold (\<lambda>(k2, vs) ret. fold (\<lambda>v ret. reorder_put (regroup order k k2 v) ret) vs ret) m ret)
          table [])"
  unfolding reorderm_def
  by (rule fold_err_pure) (auto simp: reorderm_inner_pure[OF assms])

lemma leaf_Nil: "leaf [] a b = {}"
  by (simp add: leaf_def)

section \<open>Claims about the argument pair parser and the sanitizer\<close>

text \<open>
  Claim C1 says that \<^verbatim>\<open>script_args_to_labels\<close> is total and never raises, a
  sequence of one token included. On the code, a sequence of exactly one token makes
  \<^verbatim>\<open>partition\<close> yield one window of length one, and unpacking that window into
  \<^verbatim>\<open>k, v\<close> raises \<^verbatim>\<open>ValueError\<close>: the call does not return a mapping. The theorem
  evaluates the code at \<^verbatim>\<open>["--foo"]\<close> and at every one-token sequence.
\<close>

theorem single_token_raises:
  "script_args_to_labels (Some [''--foo'']) = Inl ValueError
   \<and> script_args_to_labels (Some [x]) = Inl ValueError"
  by (simp add: script_args_to_labels_def partition_seq_def)

text \<open>
  Claim C3: \<^verbatim>\<open>script_args_to_labels(["--foo", "bar", "--flag"])\<close> returns exactly
  \<^verbatim>\<open>{"foo": "bar", "flag": ""}\<close>, the last entry coming from the trailing-flag
  step, and the empty token sequence gives the empty mapping.
\<close>

theorem labels_example:
  "script_args_to_labels (Some [''--foo'', ''bar'', ''--flag'']) = Inr [(''foo'', ''bar''), (''flag'', '''')]
   \<and> script_args_to_labels (Some []) = Inr []"
  by code_simp

text \<open>
  Claim C4: \<^verbatim>\<open>_clean_label\<close> computes the pipeline of the specification
  (\<^const>\<open>sanitize_spec\<close>): the empty string for a null input; otherwise the leading
  dashes are stripped, the string is lowercased, every character outside
  \<^verbatim>\<open>[a-z0-9_-]\<close> is deleted, \<open>k\<close> is prepended when a key is non-empty and does not
  start with a letter, and the first 63 characters are kept. The two examples of the
  specification hold; the value path returns the first 63 cleaned characters with no
  prefix, also for \<^verbatim>\<open>"123abc"\<close>; and more than 63 cleaned characters give a result of
  exactly 63 characters.
\<close>

theorem clean_label_pipeline:
  "clean_label None is_key_flag = ''''
   \<and> clean_label s is_key_flag = sanitize_spec s is_key_flag
   \<and> clean_label (Some ''--My.Key!!'') True = ''mykey''
   \<and> clean_label (Some ''123abc'') True = ''k123abc''
   \<and> clean_label (Some ''123abc'') False = ''123abc''
   \<and> clean_label (Some str) False =
       take 63 (filter (\<lambda>x. x \<in> label_alphabet) (map lower_char (dropWhile (\<lambda>x. x = CHR ''-'') str)))
   \<and> length (clean_label s is_key_flag) \<le> 63
   \<and> (63 < length (filter (\<lambda>x. x \<in> label_alphabet) (map lower_char (dropWhile (\<lambda>x. x = CHR ''-'') str)))
        \<longrightarrow> length (clean_label (Some str) is_key_flag) = 63)"
proof -
  have e1: "clean_label (Some ''--My.Key!!'') True = ''mykey''" by code_simp
  have e2: "clean_label (Some ''123abc'') True = ''k123abc''" by code_simp
  have e3: "clean_label (Some ''123abc'') False = ''123abc''" by code_simp
  have n: "clean_label None is_key_flag = ''''" by (simp add: clean_label_def)
  have v: "clean_label (Some str) False =
       take 63 (filter (\<lambda>x. x \<in> label_alphabet) (map lower_char (dropWhile (\<lambda>x. x = CHR ''-'') str)))"
    by (simp add: clean_label_refines sanitize_spec_def)
  have l: "length (clean_label s is_key_flag) \<le> 63"
    by (simp add: clean_label_refines sanitize_spec_length)
  have t: "length (clean_label (Some str) is_key_flag) = 63"
    if "63 < length (filter (\<lambda>x. x \<in> label_alphabet) (map lower_char (dropWhile (\<lambda>x. x = CHR ''-'') str)))"
    using that by (simp add: clean_label_refines sanitize_spec_def Let_def)
  from e1 e2 e3 n v l t clean_label_refines show ?thesis by blast
qed

theorem clean_label_pipeline_witness:
  "63 < length (filter (\<lambda>x. x \<in> label_alphabet) (map lower_char (dropWhile (\<lambda>x. x = CHR ''-'')
      ''--0123456789ABCDEFGHIJKLMNOPQRSTUVWXYZ.abcdefghijklmnopqrstuvwxyz_-!0123456789'')))
   \<and> length (clean_label (Some ''--0123456789ABCDEFGHIJKLMNOPQRSTUVWXYZ.abcdefghijklmnopqrstuvwxyz_-!0123456789'') True) = 63"
proof -
  have h: "63 < length (filter (\<lambda>x. x \<in> label_alphabet) (map lower_char (dropWhile (\<lambda>x. x = CHR ''-'')
      ''--0123456789ABCDEFGHIJKLMNOPQRSTUVWXYZ.abcdefghijklmnopqrstuvwxyz_-!0123456789'')))"
    by code_simp
  from clean_label_pipeline[of True None "''--0123456789ABCDEFGHIJKLMNOPQRSTUVWXYZ.abcdefghijklmnopqrstuvwxyz_-!0123456789''"] h
  show ?thesis by blast
qed

text \<open>
  Claim C5: in every mapping that \<^verbatim>\<open>script_args_to_labels\<close> returns and in the
  mapping \<^verbatim>\<open>sanitize_labels\<close> returns, each key is a non-empty string of at most 63
  characters of \<^verbatim>\<open>[a-z0-9_-]\<close> that starts with a letter, each value is a string of
  at most 63 characters of the same alphabet, no key occurs twice, and the pairs whose
  key sanitizes to the empty string contribute nothing to the result of
  \<^verbatim>\<open>sanitize_labels\<close>.
\<close>

theorem labels_invariant:
  "(script_args_to_labels script_args = Inr m \<longrightarrow> labels_ok m \<and> wf_dict m)
   \<and> labels_ok (sanitize_labels pairs) \<and> wf_dict (sanitize_labels pairs)
   \<and> sanitize_labels pairs = sanitize_labels (filter (\<lambda>(k, v). key_label (Some k) \<noteq> '''') pairs)"
proof -
  have a: "labels_ok m \<and> wf_dict m" if "script_args_to_labels script_args = Inr m"
    using that
    by (rule script_args_to_labels_inv)
       (simp_all add: labels_ok_def wf_dict_def process_pair_ok[unfolded labels_ok_def] process_pair_wf[unfolded wf_dict_def])
  have b: "labels_ok (sanitize_labels pairs) \<and> wf_dict (sanitize_labels pairs)"
    by (rule sanitize_labels_inv)
       (auto simp: labels_ok_def wf_dict_set wf_dict_Nil key_label_ok value_label_ok intro!: list_all_dict_set)
  from a b sanitize_labels_filter show ?thesis by blast
qed

theorem labels_invariant_witness:
  "script_args_to_labels (Some [''--1x'', ''Bar!'', ''--flag'']) = Inr [(''k1x'', ''bar''), (''flag'', '''')]
   \<and> labels_ok [(''k1x'', ''bar''), (''flag'', '''')] \<and> wf_dict [(''k1x'', ''bar''), (''flag'', '''')]"
proof -
  have h: "script_args_to_labels (Some [''--1x'', ''Bar!'', ''--flag'']) = Inr [(''k1x'', ''bar''), (''flag'', '''')]"
    by code_simp
  from labels_invariant[of "Some [''--1x'', ''Bar!'', ''--flag'']" "[(''k1x'', ''bar''), (''flag'', '''')]" "[]"] h
  show ?thesis by blast
qed

text \<open>
  Claim C2 says that a window \<^verbatim>\<open>(k, v)\<close> whose \<^verbatim>\<open>k\<close> is a key and whose \<^verbatim>\<open>v\<close> is
  not records \<^verbatim>\<open>v\<close> unchanged. The code records \<^verbatim>\<open>value_label(v)\<close>, the sanitized
  value: at \<^verbatim>\<open>["--foo", "Bar!"]\<close> the result is \<^verbatim>\<open>{"foo": "bar"}\<close>, and
  \<^verbatim>\<open>"bar"\<close> is not \<^verbatim>\<open>"Bar!"\<close>.
\<close>

theorem value_stored_as_is_counterexample:
  "is_key (Some ''--foo'') \<and> \<not> is_key (Some ''Bar!'')
   \<and> script_args_to_labels (Some [''--foo'', ''Bar!'']) = Inr [(''foo'', ''bar'')]
   \<and> ''bar'' \<noteq> ''Bar!''"
  by code_simp


text \<open>
  Claim C2, as amended. \<^verbatim>\<open>process_pair\<close>, given a \<^verbatim>\<open>k\<close> that is classified as a key
  and has a non-empty sanitized key, binds the sanitized key to the empty string if
  \<^verbatim>\<open>v\<close> is classified as a key and to the sanitized value \<^verbatim>\<open>value_label(v)\<close>
  otherwise, and leaves every other entry as it was. In \<^verbatim>\<open>script_args_to_labels\<close>, on
  a sequence of two or more tokens, every window \<^verbatim>\<open>(args[i], args[i + 1])\<close> is handed
  to \<^verbatim>\<open>process_pair\<close> in order, and the last token after them. So for every window
  whose first token is such a key, the mapping held after the window is the mapping held
  before it with the sanitized key set to that value (the scan of the first
  \<^verbatim>\<open>i + 1\<close> windows against the scan of the first \<^verbatim>\<open>i\<close>); and the mapping returned
  binds the sanitized key to that value whenever no later token is a key with the same
  sanitized key. For a two-token sequence whose second token is not a key, the mapping
  returned is exactly that one entry.
\<close>

theorem every_window_records:
  "(is_key k \<and> key_label k \<noteq> '''' \<longrightarrow>
      map_of (process_pair k v ret) =
        (map_of ret)(key_label k \<mapsto> (if is_key v then '''' else value_label v)))
   \<and> (is_key (Some a) \<and> key_label (Some a) \<noteq> '''' \<and> \<not> is_key (Some b) \<longrightarrow>
      script_args_to_labels (Some [a, b]) = Inr [(key_label (Some a), value_label (Some b))])
   \<and> (2 \<le> length xs \<longrightarrow>
      script_args_to_labels (Some xs) =
        Inr (process_pair (Some (last xs)) None
               (fold (\<lambda>(k, v). process_pair (Some k) (Some v)) (zip xs (tl xs)) [])))
   \<and> (i + 1 < length args \<and> is_key (Some (args ! i)) \<and> key_label (Some (args ! i)) \<noteq> '''' \<longrightarrow>
      (\<exists>r. scan_windows (take i (partition_seq args 2)) [] = Inr r
         \<and> scan_windows (take (Suc i) (partition_seq args 2)) [] =
             Inr (dict_set (key_label (Some (args ! i)))
                    (if is_key (Some (args ! (i + 1))) then ''''
                     else value_label (Some (args ! (i + 1)))) r)))
   \<and> (n + 1 < length ts \<and> is_key (Some (ts ! n)) \<and> key_label (Some (ts ! n)) = c \<and> c \<noteq> ''''
        \<and> (\<forall>j. n < j \<and> j < length ts \<longrightarrow>
              \<not> (is_key (Some (ts ! j)) \<and> key_label (Some (ts ! j)) = c)) \<longrightarrow>
      (\<exists>m. script_args_to_labels (Some ts) = Inr m
         \<and> map_of m c = Some (if is_key (Some (ts ! (n + 1))) then ''''
                               else value_label (Some (ts ! (n + 1))))))"
proof -
  have p: "map_of (process_pair k v ret) =
        (map_of ret)(key_label k \<mapsto> (if is_key v then '''' else value_label v))"
    if "is_key k" "key_label k \<noteq> ''''"
    using that by (simp add: process_pair_def Let_def map_of_dict_set)
  have q: "script_args_to_labels (Some [a, b]) = Inr [(key_label (Some a), value_label (Some b))]"
    if "is_key (Some a)" "key_label (Some a) \<noteq> ''''" "\<not> is_key (Some b)"
    using that by (simp add: script_args_to_labels_unfold process_pair_def Let_def)
  have u: "script_args_to_labels (Some xs) =
        Inr (process_pair (Some (last xs)) None
               (fold (\<lambda>(k, v). process_pair (Some k) (Some v)) (zip xs (tl xs)) []))"
    if "2 \<le> length xs"
    using that by (rule script_args_to_labels_unfold)
  have w: "\<exists>r. scan_windows (take i (partition_seq args 2)) [] = Inr r
         \<and> scan_windows (take (Suc i) (partition_seq args 2)) [] =
             Inr (dict_set (key_label (Some (args ! i)))
                    (if is_key (Some (args ! (i + 1))) then ''''
                     else value_label (Some (args ! (i + 1)))) r)"
    if h: "i + 1 < length args" "is_key (Some (args ! i))" "key_label (Some (args ! i)) \<noteq> ''''"
  proof -
    define r where "r = fold (\<lambda>(a, b). process_pair (Some a) (Some b)) (take i (zip args (tl args))) []"
    from h(1) have len: "2 \<le> length args" by simp
    have 1: "scan_windows (take i (partition_seq args 2)) [] = Inr r"
      unfolding r_def by (rule scan_windows_take[OF len])
    have "scan_windows (take (Suc i) (partition_seq args 2)) [] =
        Inr (process_pair (Some (args ! i)) (Some (args ! (i + 1))) r)"
      unfolding r_def by (rule scan_windows_step[OF h(1)])
    with h(2,3) have 2: "scan_windows (take (Suc i) (partition_seq args 2)) [] =
             Inr (dict_set (key_label (Some (args ! i)))
                    (if is_key (Some (args ! (i + 1))) then ''''
                     else value_label (Some (args ! (i + 1)))) r)"
      by (simp add: process_pair_def Let_def)
    from 1 2 show ?thesis by blast
  qed
  have f: "\<exists>m. script_args_to_labels (Some ts) = Inr m
         \<and> map_of m c = Some (if is_key (Some (ts ! (n + 1))) then ''''
                               else value_label (Some (ts ! (n + 1))))"
    if h: "n + 1 < length ts" "is_key (Some (ts ! n))" "key_label (Some (ts ! n)) = c" "c \<noteq> ''''"
      "\<forall>j. n < j \<and> j < length ts \<longrightarrow>
              \<not> (is_key (Some (ts ! j)) \<and> key_label (Some (ts ! j)) = c)"
  proof -
    from h(1) have "length ts \<noteq> 1" by simp
    then obtain m where m: "script_args_to_labels (Some ts) = Inr m"
      using script_args_to_labels_returns by blast
    have "map_of m c = Some (if is_key (Some (ts ! (n + 1))) then ''''
                               else value_label (Some (ts ! (n + 1))))"
      using m h(1-4) by (rule window_wins) (use h(5) in blast)
    with m show ?thesis by blast
  qed
  from p q u w f show ?thesis by blast
qed

theorem every_window_records_witness:
  "is_key (Some ''--foo'') \<and> key_label (Some ''--foo'') \<noteq> '''' \<and> \<not> is_key (Some ''Bar!'')
   \<and> map_of (process_pair (Some ''--foo'') (Some ''--bar'') []) =
       (map_of [])(key_label (Some ''--foo'') \<mapsto>
          (if is_key (Some ''--bar'') then '''' else value_label (Some ''--bar'')))
   \<and> is_key (Some ''--bar'')
   \<and> script_args_to_labels (Some [''--foo'', ''Bar!'']) =
       Inr [(key_label (Some ''--foo''), value_label (Some ''Bar!''))]
   \<and> key_label (Some ''--foo'') = ''foo'' \<and> value_label (Some ''Bar!'') = ''bar''
   \<and> script_args_to_labels (Some [''--a'', ''X!'', ''--b'', ''--c'']) =
        Inr (process_pair (Some (last [''--a'', ''X!'', ''--b'', ''--c''])) None
               (fold (\<lambda>(k, v). process_pair (Some k) (Some v))
                  (zip [''--a'', ''X!'', ''--b'', ''--c''] (tl [''--a'', ''X!'', ''--b'', ''--c''])) []))
   \<and> script_args_to_labels (Some [''--a'', ''X!'', ''--b'', ''--c'']) =
        Inr [(''a'', ''x''), (''b'', ''''), (''c'', '''')]
   \<and> scan_windows (take 2 (partition_seq [''--a'', ''X!'', ''--b'', ''--c''] 2)) [] = Inr [(''a'', ''x'')]
   \<and> scan_windows (take (Suc 2) (partition_seq [''--a'', ''X!'', ''--b'', ''--c''] 2)) [] =
        Inr (dict_set (key_label (Some ([''--a'', ''X!'', ''--b'', ''--c''] ! 2)))
               (if is_key (Some ([''--a'', ''X!'', ''--b'', ''--c''] ! (2 + 1))) then ''''
                else value_label (Some ([''--a'', ''X!'', ''--b'', ''--c''] ! (2 + 1))))
               [(''a'', ''x'')])
   \<and> dict_set (key_label (Some ([''--a'', ''X!'', ''--b'', ''--c''] ! 2)))
               (if is_key (Some ([''--a'', ''X!'', ''--b'', ''--c''] ! (2 + 1))) then ''''
                else value_label (Some ([''--a'', ''X!'', ''--b'', ''--c''] ! (2 + 1))))
               [(''a'', ''x'')] = [(''a'', ''x''), (''b'', '''')]
   \<and> map_of [(''a'', ''x''), (''b'', ''''), (''c'', '''')] ''a'' =
        Some (if is_key (Some ([''--a'', ''X!'', ''--b'', ''--c''] ! (0 + 1))) then ''''
              else value_label (Some ([''--a'', ''X!'', ''--b'', ''--c''] ! (0 + 1))))
   \<and> value_label (Some ([''--a'', ''X!'', ''--b'', ''--c''] ! (0 + 1))) = ''x''"
proof -
  define W where "W = [''--a'', ''X!'', ''--b'', ''--c'']"
  define M where "M = [(''a'', ''x''), (''b'', ''''), (''c'', '''')]"
  have h: "is_key (Some ''--foo'')" "key_label (Some ''--foo'') \<noteq> ''''" "\<not> is_key (Some ''Bar!'')"
    by code_simp+
  have hb: "is_key (Some ''--bar'')" by code_simp
  have e: "key_label (Some ''--foo'') = ''foo''" "value_label (Some ''Bar!'') = ''bar''"
    by code_simp+
  note t = every_window_records[where k="Some ''--foo''" and v="Some ''--bar''" and ret="[]"
      and a="''--foo''" and b="''Bar!''" and xs=W and args=W and i=2 and ts=W and n=0 and c="''a''"]
  have A: "map_of (process_pair (Some ''--foo'') (Some ''--bar'') []) =
       (map_of [])(key_label (Some ''--foo'') \<mapsto>
          (if is_key (Some ''--bar'') then '''' else value_label (Some ''--bar'')))"
    by (rule mp[OF t[THEN conjunct1]]) (intro conjI h)
  have B: "script_args_to_labels (Some [''--foo'', ''Bar!'']) =
       Inr [(key_label (Some ''--foo''), value_label (Some ''Bar!''))]"
    by (rule mp[OF t[THEN conjunct2, THEN conjunct1]]) (intro conjI h)
  have len: "2 \<le> length W" by (simp add: W_def)
  have E: "script_args_to_labels (Some W) =
        Inr (process_pair (Some (last W)) None
               (fold (\<lambda>(k, v). process_pair (Some k) (Some v)) (zip W (tl W)) []))"
    by (rule mp[OF t[THEN conjunct2, THEN conjunct2, THEN conjunct1] len])
  have res: "script_args_to_labels (Some W) = Inr M" unfolding W_def M_def by code_simp
  have c1: "(2::nat) + 1 < length W" "is_key (Some (W ! 2))" "key_label (Some (W ! 2)) \<noteq> ''''"
    unfolding W_def by code_simp+
  have "\<exists>r. scan_windows (take 2 (partition_seq W 2)) [] = Inr r
         \<and> scan_windows (take (Suc 2) (partition_seq W 2)) [] =
             Inr (dict_set (key_label (Some (W ! 2)))
                    (if is_key (Some (W ! (2 + 1))) then ''''
                     else value_label (Some (W ! (2 + 1)))) r)"
    by (rule mp[OF t[THEN conjunct2, THEN conjunct2, THEN conjunct2, THEN conjunct1]]) (intro conjI c1)
  then obtain r where r1: "scan_windows (take 2 (partition_seq W 2)) [] = Inr r"
    and r2: "scan_windows (take (Suc 2) (partition_seq W 2)) [] =
             Inr (dict_set (key_label (Some (W ! 2)))
                    (if is_key (Some (W ! (2 + 1))) then ''''
                     else value_label (Some (W ! (2 + 1)))) r)"
    by blast
  have s2: "scan_windows (take 2 (partition_seq W 2)) [] = Inr [(''a'', ''x'')]"
    unfolding W_def by code_simp
  from r1 s2 have rr: "r = [(''a'', ''x'')]" by simp
  note C = r2[unfolded rr]
  have cv: "dict_set (key_label (Some (W ! 2)))
               (if is_key (Some (W ! (2 + 1))) then ''''
                else value_label (Some (W ! (2 + 1))))
               [(''a'', ''x'')] = [(''a'', ''x''), (''b'', '''')]"
    unfolding W_def by code_simp
  have d1: "(0::nat) + 1 < length W" "is_key (Some (W ! 0))" "key_label (Some (W ! 0)) = ''a''"
      "''a'' \<noteq> ''''"
    unfolding W_def by code_simp+
  have nk: "\<not> is_key (Some (W ! 1))" unfolding W_def by code_simp
  have kb: "key_label (Some (W ! 2)) \<noteq> ''a''" "key_label (Some (W ! 3)) \<noteq> ''a''"
    unfolding W_def by code_simp+
  have d2: "\<forall>j. 0 < j \<and> j < length W \<longrightarrow>
              \<not> (is_key (Some (W ! j)) \<and> key_label (Some (W ! j)) = ''a'')"
  proof (intro allI impI)
    fix j :: nat assume "0 < j \<and> j < length W"
    then have "j = 1 \<or> j = 2 \<or> j = 3" by (auto simp: W_def)
    with nk kb show "\<not> (is_key (Some (W ! j)) \<and> key_label (Some (W ! j)) = ''a'')" by auto
  qed
  have "\<exists>m. script_args_to_labels (Some W) = Inr m
         \<and> map_of m ''a'' = Some (if is_key (Some (W ! (0 + 1))) then ''''
                               else value_label (Some (W ! (0 + 1))))"
    by (rule mp[OF t[THEN conjunct2, THEN conjunct2, THEN conjunct2, THEN conjunct2]])
       (intro conjI d1 d2)
  then obtain m where m1: "script_args_to_labels (Some W) = Inr m"
    and m2: "map_of m ''a'' = Some (if is_key (Some (W ! (0 + 1))) then ''''
                               else value_label (Some (W ! (0 + 1))))"
    by blast
  from m1 res have "m = M" by simp
  note D = m2[unfolded this]
  have dv: "value_label (Some (W ! (0 + 1))) = ''x''" unfolding W_def by code_simp
  show ?thesis
    by (intro conjI h A hb B e E[unfolded W_def] res[unfolded W_def M_def] s2[unfolded W_def]
        C[unfolded W_def] cv[unfolded W_def] D[unfolded W_def M_def] dv[unfolded W_def])
qed

text \<open>
  Claim C10: last write wins. In \<^verbatim>\<open>sanitize_labels\<close>, a sanitized key is bound to the
  sanitized value of the last pair whose key sanitizes to it. In
  \<^verbatim>\<open>script_args_to_labels\<close>, a sanitized key is bound to the value recorded for the
  last window whose first token is a key that sanitizes to it (the empty string when
  the second token is a key, the sanitized second token otherwise), provided no later
  token, the trailing one included, is a key with the same sanitized key; and a
  trailing flag binds its sanitized key to the empty string whatever the windows before
  recorded. In each case the key occurs exactly once in the returned mapping.
\<close>

theorem last_write_wins:
  "(key_label (Some k) = c \<and> c \<noteq> '''' \<and> list_all (\<lambda>(k', v'). key_label (Some k') \<noteq> c) qs
      \<longrightarrow> map_of (sanitize_labels (ps @ (k, v) # qs)) c = Some (value_label (Some v))
        \<and> length (filter (\<lambda>p. fst p = c) (sanitize_labels (ps @ (k, v) # qs))) = 1)
   \<and> (script_args_to_labels (Some args) = Inr m \<and> i + 1 < length args
        \<and> is_key (Some (args ! i)) \<and> key_label (Some (args ! i)) = d \<and> d \<noteq> ''''
        \<and> (\<forall>j. i < j \<and> j < length args \<longrightarrow>
              \<not> (is_key (Some (args ! j)) \<and> key_label (Some (args ! j)) = d))
      \<longrightarrow> map_of m d = Some (if is_key (Some (args ! (i + 1))) then ''''
                             else value_label (Some (args ! (i + 1))))
        \<and> length (filter (\<lambda>p. fst p = d) m) = 1)
   \<and> (script_args_to_labels (Some args') = Inr m' \<and> 1 < length args'
        \<and> is_key (Some (last args')) \<and> key_label (Some (last args')) = e \<and> e \<noteq> ''''
      \<longrightarrow> map_of m' e = Some '''' \<and> length (filter (\<lambda>p. fst p = e) m') = 1)"
proof -
  have wf: "wf_dict x" if "script_args_to_labels a = Inr x" for a x
    using that by (rule script_args_to_labels_inv) (simp_all add: wf_dict_Nil process_pair_wf)
  have wfs: "wf_dict (sanitize_labels xs)" for xs
    by (rule sanitize_labels_inv) (simp_all add: wf_dict_Nil wf_dict_set)
  have A: "map_of (sanitize_labels (ps @ (k, v) # qs)) c = Some (value_label (Some v))
        \<and> length (filter (\<lambda>p. fst p = c) (sanitize_labels (ps @ (k, v) # qs))) = 1"
    if h: "key_label (Some k) = c" "c \<noteq> ''''" "list_all (\<lambda>(k', v'). key_label (Some k') \<noteq> c) qs"
  proof -
    have "\<And>k' v'. (k', v') \<in> set qs \<Longrightarrow> key_label (Some k') \<noteq> c"
      using h(3) by (auto simp: list_all_iff)
    with h(1,2) have "map_of (sanitize_labels (ps @ (k, v) # qs)) c = Some (value_label (Some v))"
      by (rule sanitize_labels_last)
    with wfs show ?thesis by (simp add: count_key_one)
  qed
  have B: "map_of m d = Some (if is_key (Some (args ! (i + 1))) then ''''
                             else value_label (Some (args ! (i + 1))))
        \<and> length (filter (\<lambda>p. fst p = d) m) = 1"
    if h: "script_args_to_labels (Some args) = Inr m" "i + 1 < length args"
        "is_key (Some (args ! i))" "key_label (Some (args ! i)) = d" "d \<noteq> ''''"
        "\<forall>j. i < j \<and> j < length args \<longrightarrow>
              \<not> (is_key (Some (args ! j)) \<and> key_label (Some (args ! j)) = d)"
  proof -
    have "map_of m d = Some (if is_key (Some (args ! (i + 1))) then ''''
                             else value_label (Some (args ! (i + 1))))"
      using h(1-5) by (rule window_wins) (use h(6) in blast)
    with wf[OF h(1)] show ?thesis by (simp add: count_key_one)
  qed
  have C: "map_of m' e = Some '''' \<and> length (filter (\<lambda>p. fst p = e) m') = 1"
    if h: "script_args_to_labels (Some args') = Inr m'" "1 < length args'"
        "is_key (Some (last args'))" "key_label (Some (last args')) = e" "e \<noteq> ''''"
  proof -
    have "map_of m' e = Some ''''" using h by (rule trailing_wins)
    with wf[OF h(1)] show ?thesis by (simp add: count_key_one)
  qed
  from A B C show ?thesis by blast
qed

theorem last_write_wins_witness:
  "map_of (sanitize_labels ([(''Foo'', ''1'')] @ (''foo'', ''2'') # [(''bar'', ''x'')])) ''foo''
     = Some (value_label (Some ''2''))
   \<and> value_label (Some ''2'') = ''2''
   \<and> length (filter (\<lambda>p. fst p = ''foo'')
        (sanitize_labels ([(''Foo'', ''1'')] @ (''foo'', ''2'') # [(''bar'', ''x'')]))) = 1
   \<and> script_args_to_labels (Some [''--foo'', ''a'', ''--FOO'', ''B'']) = Inr [(''foo'', ''b'')]
   \<and> map_of [(''foo'', ''b'')] ''foo''
       = Some (if is_key (Some ([''--foo'', ''a'', ''--FOO'', ''B''] ! (2 + 1))) then ''''
               else value_label (Some ([''--foo'', ''a'', ''--FOO'', ''B''] ! (2 + 1))))
   \<and> script_args_to_labels (Some [''--foo'', ''bar'', ''--FOO'']) = Inr [(''foo'', '''')]
   \<and> is_key (Some (last [''--foo'', ''bar'', ''--FOO'']))
   \<and> map_of [(''foo'', '''')] ''foo'' = Some (''''::string)"
proof -
  have a: "key_label (Some ''foo'') = ''foo''" "''foo'' \<noteq> ''''"
      "list_all (\<lambda>(k', v'). key_label (Some k') \<noteq> ''foo'') [(''bar'', ''x'')]"
    by code_simp+
  have b: "script_args_to_labels (Some [''--foo'', ''a'', ''--FOO'', ''B'']) = Inr [(''foo'', ''b'')]"
      "(2::nat) + 1 < length [''--foo'', ''a'', ''--FOO'', ''B'']"
      "is_key (Some ([''--foo'', ''a'', ''--FOO'', ''B''] ! 2))"
      "key_label (Some ([''--foo'', ''a'', ''--FOO'', ''B''] ! 2)) = ''foo''"
    by code_simp+
  have b3: "\<not> is_key (Some ([''--foo'', ''a'', ''--FOO'', ''B''] ! 3))"
    by code_simp
  have b': "\<forall>j. 2 < j \<and> j < length [''--foo'', ''a'', ''--FOO'', ''B''] \<longrightarrow>
      \<not> (is_key (Some ([''--foo'', ''a'', ''--FOO'', ''B''] ! j))
          \<and> key_label (Some ([''--foo'', ''a'', ''--FOO'', ''B''] ! j)) = ''foo'')"
  proof (intro allI impI)
    fix j :: nat assume "2 < j \<and> j < length [''--foo'', ''a'', ''--FOO'', ''B'']"
    then have "j = 3" by simp
    with b3 show "\<not> (is_key (Some ([''--foo'', ''a'', ''--FOO'', ''B''] ! j))
          \<and> key_label (Some ([''--foo'', ''a'', ''--FOO'', ''B''] ! j)) = ''foo'')"
      by simp
  qed
  have c: "script_args_to_labels (Some [''--foo'', ''bar'', ''--FOO'']) = Inr [(''foo'', '''')]"
      "1 < length [''--foo'', ''bar'', ''--FOO'']"
      "is_key (Some (last [''--foo'', ''bar'', ''--FOO'']))"
      "key_label (Some (last [''--foo'', ''bar'', ''--FOO''])) = ''foo''"
    by code_simp+
  have v2: "value_label (Some ''2'') = ''2''" by code_simp
  note t = last_write_wins[of "''foo''" "''foo''" "[(''bar'', ''x'')]" "[(''Foo'', ''1'')]" "''2''"
      "[''--foo'', ''a'', ''--FOO'', ''B'']" "[(''foo'', ''b'')]" 2 "''foo''"
      "[''--foo'', ''bar'', ''--FOO'']" "[(''foo'', '''')]" "''foo''"]
  have A: "map_of (sanitize_labels ([(''Foo'', ''1'')] @ (''foo'', ''2'') # [(''bar'', ''x'')])) ''foo''
     = Some (value_label (Some ''2''))
   \<and> length (filter (\<lambda>p. fst p = ''foo'')
        (sanitize_labels ([(''Foo'', ''1'')] @ (''foo'', ''2'') # [(''bar'', ''x'')]))) = 1"
    by (rule mp[OF t[THEN conjunct1]]) (intro conjI a)
  have B: "map_of [(''foo'', ''b'')] ''foo''
       = Some (if is_key (Some ([''--foo'', ''a'', ''--FOO'', ''B''] ! (2 + 1))) then ''''
               else value_label (Some ([''--foo'', ''a'', ''--FOO'', ''B''] ! (2 + 1))))
     \<and> length (filter (\<lambda>p. fst p = ''foo'') [(''foo'', ''b'')]) = 1"
    by (rule mp[OF t[THEN conjunct2, THEN conjunct1]]) (intro conjI a(2) b b')
  have C: "map_of [(''foo'', '''')] ''foo'' = Some (''''::string)
     \<and> length (filter (\<lambda>p. fst p = ''foo'') [(''foo'', ''''::string)]) = 1"
    by (rule mp[OF t[THEN conjunct2, THEN conjunct2]]) (intro conjI a(2) c)
  show ?thesis
    by (intro conjI A[THEN conjunct1] v2 A[THEN conjunct2] b(1) B[THEN conjunct1] c(1) c(3) C[THEN conjunct1])
qed

section \<open>Claims about the configuration expander\<close>

text \<open>
  Claim C6: for a mapping \<^verbatim>\<open>m\<close> (keys pairwise distinct, as in every dict), with each
  non-list value treated as a one-element list, \<^verbatim>\<open>dict_product(m)\<close> emits as many
  dictionaries as the product of the lengths of the value lists; each emitted
  dictionary has the keys of \<^verbatim>\<open>m\<close>, each once, bound to an element of that key's
  value list, and every such choice of elements is emitted; an empty list under some
  key gives no dictionary at all; and \<^verbatim>\<open>{"a": [1, 2], "b": 3}\<close> expands to
  \<^verbatim>\<open>[{"a": 1, "b": 3}, {"a": 2, "b": 3}]\<close> in that order.
\<close>

theorem dict_product_expands:
  "(wf_dict m \<longrightarrow>
      length (dict_product m) = prod_list (map (\<lambda>(k, v). length (wrap_v v)) m)
      \<and> (\<forall>d \<in> set (dict_product m).
            wf_dict d \<and> map fst d = map fst m
            \<and> list_all2 (\<lambda>x (k, v). x \<in> set (wrap_v v)) (map snd d) m)
      \<and> (\<forall>x. list_all2 (\<lambda>x (k, v). x \<in> set (wrap_v v)) x m
            \<longrightarrow> zip (map fst m) x \<in> set (dict_product m)))
   \<and> (wf_dict m' \<and> (k, PyList []) \<in> set m' \<longrightarrow> dict_product m' = [])
   \<and> dict_product [(''a'', PyList [1 :: int, 2]), (''b'', Scalar 3)]
       = [[(''a'', 1), (''b'', 3)], [(''a'', 2), (''b'', 3)]]"
proof -
  have ex: "dict_product [(''a'', PyList [1 :: int, 2]), (''b'', Scalar 3)]
       = [[(''a'', 1), (''b'', 3)], [(''a'', 2), (''b'', 3)]]"
    by code_simp
  have A: "length (dict_product m) = prod_list (map (\<lambda>(k, v). length (wrap_v v)) m)
      \<and> (\<forall>d \<in> set (dict_product m).
            wf_dict d \<and> map fst d = map fst m
            \<and> list_all2 (\<lambda>x (k, v). x \<in> set (wrap_v v)) (map snd d) m)
      \<and> (\<forall>x. list_all2 (\<lambda>x (k, v). x \<in> set (wrap_v v)) x m
            \<longrightarrow> zip (map fst m) x \<in> set (dict_product m))"
    if wf: "wf_dict m"
  proof (intro conjI ballI allI impI)
    have pl: "prod_list (map length (map (\<lambda>(k, v). wrap_v v) m))
        = prod_list (map (\<lambda>(k, v). length (wrap_v v)) m)"
      by (induction m) auto
    show "length (dict_product m) = prod_list (map (\<lambda>(k, v). length (wrap_v v)) m)"
      by (simp only: dict_product_wf[OF wf] length_map length_it_product pl)
  next
    fix d assume "d \<in> set (dict_product m)"
    then obtain x where x: "x \<in> set (it_product (map (\<lambda>(k, v). wrap_v v) m))"
        and d: "d = zip (map fst m) x"
      by (auto simp: dict_product_wf[OF wf])
    from x have r: "list_all2 (\<lambda>x (k, v). x \<in> set (wrap_v v)) x m"
      by (simp only: it_product_member_wrap)
    then have len: "length x = length m" by (rule list_all2_lengthD)
    from len d show "map fst d = map fst m" by simp
    with wf show "wf_dict d" by (simp add: wf_dict_def)
    from len d have "map snd d = x" by simp
    with r show "list_all2 (\<lambda>x (k, v). x \<in> set (wrap_v v)) (map snd d) m" by simp
  next
    fix x assume "list_all2 (\<lambda>x (k, v). x \<in> set (wrap_v v)) x m"
    then have "x \<in> set (it_product (map (\<lambda>(k, v). wrap_v v) m))"
      by (simp only: it_product_member_wrap)
    then show "zip (map fst m) x \<in> set (dict_product m)"
      by (simp add: dict_product_wf[OF wf])
  qed
  have B: "dict_product m' = []" if wf: "wf_dict m'" and e: "(k, PyList []) \<in> set m'"
  proof -
    have "(\<lambda>(k, v). wrap_v v) (k, PyList []) = []" by (simp add: wrap_v_def)
    with e have "[] \<in> (\<lambda>(k, v). wrap_v v) ` set m'" by (metis imageI)
    then have "[] \<in> set (map (\<lambda>(k, v). wrap_v v) m')" by (simp only: set_map)
    then show ?thesis by (simp add: dict_product_wf[OF wf] it_product_empty)
  qed
  from A B ex show ?thesis by blast
qed

theorem dict_product_expands_witness:
  "wf_dict [(''a'', PyList [1 :: int, 2]), (''b'', Scalar 3)]
   \<and> length (dict_product [(''a'', PyList [1 :: int, 2]), (''b'', Scalar 3)])
       = prod_list (map (\<lambda>(k, v). length (wrap_v v)) [(''a'', PyList [1 :: int, 2]), (''b'', Scalar 3)])
   \<and> prod_list (map (\<lambda>(k, v). length (wrap_v v)) [(''a'', PyList [1 :: int, 2]), (''b'', Scalar 3)]) = 2
   \<and> zip (map fst [(''a'', PyList [1 :: int, 2]), (''b'', Scalar 3)]) [2, 3]
       \<in> set (dict_product [(''a'', PyList [1 :: int, 2]), (''b'', Scalar 3)])
   \<and> wf_dict [(''a'', PyList [1 :: int, 2]), (''b'', PyList [])]
   \<and> dict_product [(''a'', PyList [1 :: int, 2]), (''b'', PyList [])] = []"
proof -
  note t = dict_product_expands[of "[(''a'', PyList [1 :: int, 2]), (''b'', Scalar 3)]"
      "[(''a'', PyList [1 :: int, 2]), (''b'', PyList [])]" "''b''"]
  have w1: "wf_dict [(''a'', PyList [1 :: int, 2]), (''b'', Scalar 3)]" by code_simp
  have w2: "wf_dict [(''a'', PyList [1 :: int, 2]), (''b'', PyList [])]" by code_simp
  have p: "prod_list (map (\<lambda>(k, v). length (wrap_v v)) [(''a'', PyList [1 :: int, 2]), (''b'', Scalar 3)]) = 2"
    by code_simp
  have c: "list_all2 (\<lambda>x (k, v). x \<in> set (wrap_v v)) [2, 3] [(''a'', PyList [1 :: int, 2]), (''b'', Scalar 3)]"
    by (simp add: wrap_v_def)
  have e: "(''b'', PyList []) \<in> set [(''a'', PyList [1 :: int, 2]), (''b'', PyList [])]" by simp
  note A = mp[OF t[THEN conjunct1] w1]
  have B: "dict_product [(''a'', PyList [1 :: int, 2]), (''b'', PyList [])] = []"
    by (rule mp[OF t[THEN conjunct2, THEN conjunct1]]) (intro conjI w2 e)
  have C: "zip (map fst [(''a'', PyList [1 :: int, 2]), (''b'', Scalar 3)]) [2, 3]
       \<in> set (dict_product [(''a'', PyList [1 :: int, 2]), (''b'', Scalar 3)])"
    by (rule mp[OF spec[OF A[THEN conjunct2, THEN conjunct2]] c])
  show ?thesis by (intro conjI w1 A[THEN conjunct1] p C w2 B)
qed

section \<open>Claims about the table reshaper\<close>

text \<open>
  Claim C9: \<^verbatim>\<open>invertm(table)\<close> has an entry for a value exactly when the value
  occurs in the iterable of some key, and the entry is the set of all the keys whose
  iterable contains the value; no key of the result occurs twice; and
  \<^verbatim>\<open>invertm({"x": ["a", "b"], "y": ["b"]})\<close> is \<^verbatim>\<open>{"a": {"x"}, "b": {"x", "y"}}\<close>.
\<close>

theorem invertm_inverts:
  "map_of (invertm table) v =
     (if v \<in> \<Union> (set ` snd ` set table)
      then Some {k. \<exists>vs. (k, vs) \<in> set table \<and> v \<in> set vs} else None)
   \<and> wf_dict (invertm table)
   \<and> invertm [(''x'', [''a'', ''b'']), (''y'', [''b''])] = [(''a'', {''x''}), (''b'', {''x'', ''y''})]"
proof -
  have e: "invertm [(''x'', [''a'', ''b'']), (''y'', [''b''])] = [(''a'', {''x''}), (''b'', {''x'', ''y''})]"
    by code_simp
  have u: "v \<in> \<Union> (set ` snd ` set table) \<longleftrightarrow> (\<exists>k vs. (k, vs) \<in> set table \<and> v \<in> set vs)"
    by force
  have "map_of (invertm table) v =
     (if v \<in> \<Union> (set ` snd ` set table)
      then Some {k. \<exists>vs. (k, vs) \<in> set table \<and> v \<in> set vs} else None)"
    unfolding invertm_def u by (simp add: invertm_outer members_def)
  with e wf_invertm show ?thesis by blast
qed

text \<open>
  Claim C7 says that \<^verbatim>\<open>flipm(flipm(t)) == t\<close> for every well-formed two-level table
  with no inner key under two different outer keys. An outer key whose inner mapping is
  empty contributes nothing to \<^verbatim>\<open>flipm(t)\<close>, so it is lost:
  \<^verbatim>\<open>flipm(flipm({"a": {}}))\<close> is \<^verbatim>\<open>{}\<close>, not \<^verbatim>\<open>{"a": {}}\<close>.
\<close>

theorem flipm_involution_counterexample:
  "table_wf [(''a'', ([] :: (nat, bool) dict))]
   \<and> inner_keys_disjoint [(''a'', ([] :: (nat, bool) dict))]
   \<and> flipm (flipm [(''a'', ([] :: (nat, bool) dict))]) = []
   \<and> \<not> table_eq (flipm (flipm [(''a'', ([] :: (nat, bool) dict))])) [(''a'', [])]"
proof -
  have a: "table_wf [(''a'', ([] :: (nat, bool) dict))]"
      "inner_keys_disjoint [(''a'', ([] :: (nat, bool) dict))]"
    by code_simp+
  have f: "flipm (flipm [(''a'', ([] :: (nat, bool) dict))]) = []"
    by code_simp
  have "table_sem ([] :: (string, (nat, bool) dict) dict) ''a'' \<noteq> table_sem [(''a'', [])] ''a''"
    by (simp add: table_sem_def)
  then have "table_sem ([] :: (string, (nat, bool) dict) dict) \<noteq> table_sem [(''a'', [])]"
    by (metis)
  then have "\<not> table_eq (flipm (flipm [(''a'', ([] :: (nat, bool) dict))])) [(''a'', [])]"
    unfolding f table_eq_def .
  with a f show ?thesis by (intro conjI)
qed

text \<open>
  Claim C7, as amended: \<^verbatim>\<open>flipm(flipm(t)) == t\<close> for every well-formed two-level table
  \<^verbatim>\<open>t\<close> whose inner mappings are all non-empty (whether or not an inner key occurs
  under several outer keys).
\<close>

theorem flipm_involution:
  "table_wf t \<and> nonempty_inner t \<longrightarrow> table_eq (flipm (flipm t)) t"
proof
  assume h: "table_wf t \<and> nonempty_inner t"
  have wf1: "table_wf (flipm t)" using flip_inv_flipm flip_inv_table_wf by blast
  have ne2: "nonempty_inner (flipm (flipm t))" using flip_inv_flipm flip_inv_table_wf by blast
  have "lookup2 (flipm (flipm t)) a b = lookup2 t a b" for a b
    using h wf1 by (simp add: lookup2_flipm)
  with ne2 h show "table_eq (flipm (flipm t)) t"
    unfolding table_eq_def by (intro table_sem_eqI) simp_all
qed

theorem flipm_involution_witness:
  "table_wf [(''a'', [(1 :: nat, True), (2, False)]), (''b'', [(1, False)])]
   \<and> nonempty_inner [(''a'', [(1 :: nat, True), (2, False)]), (''b'', [(1, False)])]
   \<and> flipm [(''a'', [(1 :: nat, True), (2, False)]), (''b'', [(1, False)])]
       = [(1, [(''a'', True), (''b'', False)]), (2, [(''a'', False)])]
   \<and> table_eq (flipm (flipm [(''a'', [(1 :: nat, True), (2, False)]), (''b'', [(1, False)])]))
        [(''a'', [(1 :: nat, True), (2, False)]), (''b'', [(1, False)])]"
proof -
  have w: "table_wf [(''a'', [(1 :: nat, True), (2, False)]), (''b'', [(1, False)])]"
      "nonempty_inner [(''a'', [(1 :: nat, True), (2, False)]), (''b'', [(1, False)])]"
    by code_simp+
  have f: "flipm [(''a'', [(1 :: nat, True), (2, False)]), (''b'', [(1, False)])]
       = [(1, [(''a'', True), (''b'', False)]), (2, [(''a'', False)])]"
    by code_simp
  have "table_eq (flipm (flipm [(''a'', [(1 :: nat, True), (2, False)]), (''b'', [(1, False)])]))
        [(''a'', [(1 :: nat, True), (2, False)]), (''b'', [(1, False)])]"
    by (rule mp[OF flipm_involution]) (intro conjI w)
  with w f show ?thesis by (intro conjI)
qed

text \<open>
  Claim C8: for a three-level table and a permutation \<^verbatim>\<open>order\<close> of 0, 1, 2,
  \<^verbatim>\<open>reorderm(table, order)\<close> returns a table \<^verbatim>\<open>r\<close>, and \<^verbatim>\<open>x\<close> is an element of
  \<^verbatim>\<open>r[a][b]\<close> exactly when some \<^verbatim>\<open>v\<close> in \<^verbatim>\<open>table[k1][k2]\<close> has
  \<^verbatim>\<open>(a, b, x) = (fields[order[0]], fields[order[1]], fields[order[2]])\<close> for
  \<^verbatim>\<open>fields = [k1, k2, v]\<close>. The leaf is a set, so a triple reached from several source
  positions is one element.
\<close>

theorem reorderm_regroups:
  "{o0, o1, o2} = {0, 1, 2} \<longrightarrow>
     (\<exists>r. reorderm table (o0, o1, o2) = Inr r
        \<and> (\<forall>a b x. x \<in> leaf r a b \<longleftrightarrow>
              (\<exists>k1 m k2 vs v. (k1, m) \<in> set table \<and> (k2, vs) \<in> set m \<and> v \<in> set vs
                 \<and> (a, b, x) = ([k1, k2, v] ! nat o0, [k1, k2, v] ! nat o1, [k1, k2, v] ! nat o2))))"
proof
  assume h: "{o0, o1, o2} = {0, 1, 2}"
  have "o0 \<in> {o0, o1, o2}" "o1 \<in> {o0, o1, o2}" "o2 \<in> {o0, o1, o2}" by simp_all
  then have i: "o0 \<in> {0, 1, 2}" "o1 \<in> {0, 1, 2}" "o2 \<in> {0, 1, 2}" unfolding h .
  define r where "r = fold (\<lambda>(k, m) ret.
            fold (\<lambda>(k2, vs) ret. fold (\<lambda>v ret. reorder_put (regroup (o0, o1, o2) k k2 v) ret) vs ret) m ret)
          table []"
  have "reorderm table (o0, o1, o2) = Inr r"
    unfolding r_def using i by (intro reorderm_pure) simp_all
  moreover have "x \<in> leaf r a b \<longleftrightarrow>
              (\<exists>k1 m k2 vs v. (k1, m) \<in> set table \<and> (k2, vs) \<in> set m \<and> v \<in> set vs
                 \<and> (a, b, x) = ([k1, k2, v] ! nat o0, [k1, k2, v] ! nat o1, [k1, k2, v] ! nat o2))"
    for a b x
    unfolding r_def leaf_fold_outer leaf_Nil regroup_def by auto blast+
  ultimately show "\<exists>r. reorderm table (o0, o1, o2) = Inr r
        \<and> (\<forall>a b x. x \<in> leaf r a b \<longleftrightarrow>
              (\<exists>k1 m k2 vs v. (k1, m) \<in> set table \<and> (k2, vs) \<in> set m \<and> v \<in> set vs
                 \<and> (a, b, x) = ([k1, k2, v] ! nat o0, [k1, k2, v] ! nat o1, [k1, k2, v] ! nat o2)))"
    by blast
qed

theorem reorderm_regroups_witness:
  "{2, 0, 1} = {0, 1, 2 :: int}
   \<and> reorderm [(''x'', [(''p'', [''a'', ''b'']), (''q'', [''a''])]), (''y'', [(''p'', [''b''])])] (2, 0, 1)
       = Inr [(''a'', [(''x'', {''p'', ''q''})]), (''b'', [(''x'', {''p''}), (''y'', {''p''})])]
   \<and> ''q'' \<in> leaf [(''a'', [(''x'', {''p'', ''q''})]), (''b'', [(''x'', {''p''}), (''y'', {''p''})])] ''a'' ''x''"
proof -
  define T where "T = [(''x'', [(''p'', [''a'', ''b'']), (''q'', [''a''])]), (''y'', [(''p'', [''b''])])]"
  define R where "R = [(''a'', [(''x'', {''p'', ''q''})]), (''b'', [(''x'', {''p''}), (''y'', {''p''})])]"
  have h: "{2, 0, 1} = {0, 1, 2 :: int}" by auto
  have c: "reorderm T (2, 0, 1) = Inr R" unfolding T_def R_def by code_simp
  from mp[OF reorderm_regroups[of 2 0 1 T] h] obtain r
    where r: "reorderm T (2, 0, 1) = Inr r"
      and iff: "\<And>a b x. x \<in> leaf r a b \<longleftrightarrow>
              (\<exists>k1 m k2 vs v. (k1, m) \<in> set T \<and> (k2, vs) \<in> set m \<and> v \<in> set vs
                 \<and> (a, b, x) = ([k1, k2, v] ! nat 2, [k1, k2, v] ! nat 0, [k1, k2, v] ! nat 1))"
    by blast
  from r c have rR: "r = R" by simp
  have "(''x'', [(''p'', [''a'', ''b'']), (''q'', [''a''])]) \<in> set T
      \<and> (''q'', [''a'']) \<in> set [(''p'', [''a'', ''b'']), (''q'', [''a''])]
      \<and> ''a'' \<in> set [''a'']
      \<and> (''a'', ''x'', ''q'') = ([''x'', ''q'', ''a''] ! nat 2, [''x'', ''q'', ''a''] ! nat 0, [''x'', ''q'', ''a''] ! nat 1)"
    by (simp add: T_def)
  then have "\<exists>k1 m k2 vs v. (k1, m) \<in> set T \<and> (k2, vs) \<in> set m \<and> v \<in> set vs
                 \<and> (''a'', ''x'', ''q'') = ([k1, k2, v] ! nat 2, [k1, k2, v] ! nat 0, [k1, k2, v] ! nat 1)"
    by blast
  then have "''q'' \<in> leaf r ''a'' ''x''" by (rule iffD2[OF iff])
  with rR have "''q'' \<in> leaf R ''a'' ''x''" by simp
  with h c show ?thesis unfolding T_def R_def by (intro conjI)
qed

end
